theory Spec2Isabelle
  imports Main "HOL-Library.Char_ord" "HOL-Library.List_Lexorder" "HOL-Library.AList"
    "HOL-Library.Multiset"
begin

section \<open>The values a document holds\<close>

text \<open>
  betterjson wraps a pointer to a \<^verbatim>\<open>simplejson.Json\<close>, a struct with the single field
  \<^verbatim>\<open>data interface{}\<close>. The dynamic values modelled here are the ones a parsed document
  holds (\<^verbatim>\<open>simplejson.NewJson\<close> decodes with \<^verbatim>\<open>UseNumber\<close>, so a number is a
  \<^verbatim>\<open>json.Number\<close>, which is a string), together with the pointers to
  \<^verbatim>\<open>simplejson.Json\<close> that betterjson itself stores inside arrays and objects
  (\<^verbatim>\<open>TryAdd\<close>, \<^verbatim>\<open>SetPath\<close>, \<^verbatim>\<open>GetKeyValuesIfAllContains\<close>).

  \<^item> \<open>INil\<close> is the nil interface, \<open>IBool\<close> a \<^verbatim>\<open>bool\<close>, \<open>INumber\<close> a \<^verbatim>\<open>json.Number\<close>,
    \<open>IString\<close> a \<^verbatim>\<open>string\<close> (a byte sequence);
  \<^item> \<open>ISlice\<close> is a \<^verbatim>\<open>[]interface{}\<close>, by value;
  \<^item> \<open>IMap\<close> is a \<^verbatim>\<open>map[string]interface{}\<close>, as an association list: the order of the
    list is the order in which \<^verbatim>\<open>range\<close> happens to visit the map, which Go leaves
    unspecified. A Go map holds each key once, so the lists that stand for maps have
    distinct keys;
  \<^item> \<open>INode p\<close> is a \<^verbatim>\<open>*simplejson.Json\<close>: \<open>None\<close> the nil pointer, \<open>Some d\<close> a pointer to a
    struct whose field \<^verbatim>\<open>data\<close> is \<open>d\<close>.

  Values are finite trees; what a mutating method changes is returned as the new state of
  its receiver.
\<close>

datatype iface =
    INil
  | IBool bool
  | INumber string
  | IString string
  | ISlice "iface list"
  | IMap "(string \<times> iface) list"
  | INode "iface option"

text \<open>
  A Go \<^verbatim>\<open>error\<close> carries its message. A panic is a value of its own: a run-time panic, or
  \<^verbatim>\<open>log.Panicf\<close> with its format and its integer arguments.
\<close>

datatype error = Error string

datatype panic = NilPointerDereference | IndexOutOfRange | LogPanicf string "nat list"

section \<open>encoding/json: Marshal\<close>

text \<open>
  The encoder of Go's standard library, for the values above; it is imported by the
  repository, like \<^verbatim>\<open>unicode/utf8\<close> below it, and written here after its source.
  \<^verbatim>\<open>utf8.DecodeRuneInString\<close> on the bytes of a string: the rune and the number of bytes
  it takes; an invalid or short encoding is \<^verbatim>\<open>(RuneError, 1)\<close>.
\<close>

definition RuneError :: nat where
  "RuneError = 0xFFFD"

fun DecodeRuneInString :: "nat list \<Rightarrow> nat \<times> nat" where
  "DecodeRuneInString [] = (RuneError, 0)"
| "DecodeRuneInString (s0 # s) =
    (if s0 < 0x80 then (s0, 1)
     else if s0 < 0xC2 \<or> 0xF4 < s0 then (RuneError, 1)
     else
       let sz = (if s0 < 0xE0 then 2 else if s0 < 0xF0 then 3 else 4 :: nat);
           lo = (if s0 = 0xE0 then 0xA0 else if s0 = 0xF0 then 0x90 else 0x80 :: nat);
           hi = (if s0 = 0xED then 0x9F else if s0 = 0xF4 then 0x8F else 0xBF :: nat)
       in
         if length (s0 # s) < sz then (RuneError, 1)
         else if s ! 0 < lo \<or> hi < s ! 0 then (RuneError, 1)
         else if sz \<le> 2 then ((s0 mod 0x20) * 0x40 + s ! 0 mod 0x40, 2)
         else if s ! 1 < 0x80 \<or> 0xBF < s ! 1 then (RuneError, 1)
         else if sz \<le> 3 then
           ((s0 mod 0x10) * 0x1000 + (s ! 0 mod 0x40) * 0x40 + s ! 1 mod 0x40, 3)
         else if s ! 2 < 0x80 \<or> 0xBF < s ! 2 then (RuneError, 1)
         else
           ((s0 mod 8) * 0x40000 + (s ! 0 mod 0x40) * 0x1000 + (s ! 1 mod 0x40) * 0x40
              + s ! 2 mod 0x40, 4))"

text \<open>
  \<^verbatim>\<open>htmlSafeSet\<close>: the ASCII bytes the encoder writes as they are, namely every byte
  from the space on except the double quote, the backslash, the ampersand and the two
  angle brackets.
\<close>

definition htmlSafeSet :: "char \<Rightarrow> bool" where
  "htmlSafeSet c =
    (0x20 \<le> (of_char c :: nat) \<and> (of_char c :: nat) < 0x80
     \<and> c \<noteq> CHR 0x22 \<and> c \<noteq> CHR 0x26 \<and> c \<noteq> CHR 0x3C \<and> c \<noteq> CHR 0x3E \<and> c \<noteq> CHR 0x5C)"

definition hex :: "nat \<Rightarrow> char" where
  "hex n = ''0123456789abcdef'' ! n"

text \<open>
  The loop of \<^verbatim>\<open>appendString\<close> (with \<^verbatim>\<open>escapeHTML\<close> set, as \<^verbatim>\<open>json.Marshal\<close> sets
  it) between the two quotes: one step consumes one ASCII byte or one rune.
\<close>

fun appendString_loop :: "string \<Rightarrow> string" where
  "appendString_loop [] = []"
| "appendString_loop (c # cs) =
    (let b = (of_char c :: nat) in
     if b < 0x80 then
       (if htmlSafeSet c then c # appendString_loop cs
        else if c = CHR 0x5C \<or> c = CHR 0x22 then CHR 0x5C # c # appendString_loop cs
        else if c = CHR 0x08 then CHR 0x5C # CHR ''b'' # appendString_loop cs
        else if c = CHR 0x0C then CHR 0x5C # CHR ''f'' # appendString_loop cs
        else if c = CHR 0x0A then CHR 0x5C # CHR ''n'' # appendString_loop cs
        else if c = CHR 0x0D then CHR 0x5C # CHR ''r'' # appendString_loop cs
        else if c = CHR 0x09 then CHR 0x5C # CHR ''t'' # appendString_loop cs
        else CHR 0x5C # CHR ''u'' # CHR ''0'' # CHR ''0'' # hex (b div 16) # hex (b mod 16)
               # appendString_loop cs)
     else
       (case DecodeRuneInString (map of_char (take 4 (c # cs))) of
          (r, width) \<Rightarrow>
            if r = RuneError \<and> width = 1 then
              CHR 0x5C # ''ufffd'' @ appendString_loop cs
            else if r = 0x2028 \<or> r = 0x2029 then
              CHR 0x5C # ''u202'' @ hex (r mod 16) # appendString_loop (drop (width - 1) cs)
            else c # take (width - 1) cs @ appendString_loop (drop (width - 1) cs)))"

definition appendString :: "string \<Rightarrow> string" where
  "appendString src = CHR 0x22 # appendString_loop src @ [CHR 0x22]"

text \<open>\<^verbatim>\<open>isValidNumber\<close>: whether a \<^verbatim>\<open>json.Number\<close> is a number literal of JSON.\<close>

definition is_digit :: "char \<Rightarrow> bool" where
  "is_digit c = (CHR ''0'' \<le> c \<and> c \<le> CHR ''9'')"

definition isValidNumber :: "string \<Rightarrow> bool" where
  "isValidNumber s0 =
    (if s0 = [] then False
     else
       let s1 = (if hd s0 = CHR ''-'' then tl s0 else s0) in
       if s1 = [] then False
       else if \<not> (hd s1 = CHR ''0'' \<or> (CHR ''1'' \<le> hd s1 \<and> hd s1 \<le> CHR ''9'')) then False
       else
         let s2 = (if hd s1 = CHR ''0'' then tl s1 else dropWhile is_digit (tl s1));
             s3 = (if 2 \<le> length s2 \<and> hd s2 = CHR ''.'' \<and> is_digit (s2 ! 1)
                   then dropWhile is_digit (drop 2 s2) else s2)
         in
           if 2 \<le> length s3 \<and> (hd s3 = CHR ''e'' \<or> hd s3 = CHR ''E'') then
             let s4 = tl s3;
                 signed = (hd s4 = CHR ''+'' \<or> hd s4 = CHR ''-'');
                 s5 = (if signed then tl s4 else s4)
             in if signed \<and> s5 = [] then False else dropWhile is_digit s5 = []
           else s3 = [])"

text \<open>
  The encoder proper. A \<^verbatim>\<open>json.Number\<close> is written as it is when it is a valid
  literal (the empty one as \<^verbatim>\<open>0\<close>) and is an error otherwise; a map is written with its
  keys in ascending order; a \<^verbatim>\<open>*simplejson.Json\<close> implements \<^verbatim>\<open>json.Marshaler\<close> by
  encoding its \<^verbatim>\<open>data\<close>, and a nil pointer is written \<^verbatim>\<open>null\<close>.
\<close>

fun collect :: "(error + 'a) list \<Rightarrow> error + 'a list" where
  "collect [] = Inr []"
| "collect (Inl e # rs) = Inl e"
| "collect (Inr x # rs) = (case collect rs of Inl e \<Rightarrow> Inl e | Inr xs \<Rightarrow> Inr (x # xs))"

fun join_comma :: "string list \<Rightarrow> string" where
  "join_comma [] = []"
| "join_comma [p] = p"
| "join_comma (p # q # ps) = p @ '','' @ join_comma (q # ps)"

fun json_Marshal :: "iface \<Rightarrow> error + string" where
  "json_Marshal INil = Inr ''null''"
| "json_Marshal (IBool b) = Inr (if b then ''true'' else ''false'')"
| "json_Marshal (INumber n) =
    (let numStr = (if n = [] then ''0'' else n) in
     if isValidNumber numStr then Inr numStr
     else Inl (Error ''json: invalid number literal''))"
| "json_Marshal (IString s) = Inr (appendString s)"
| "json_Marshal (ISlice a) =
    (case collect (map json_Marshal a) of
       Inl e \<Rightarrow> Inl e
     | Inr parts \<Rightarrow> Inr (''['' @ join_comma parts @ '']''))"
| "json_Marshal (IMap m) =
    (case collect (map (\<lambda>(k, v). case json_Marshal v of
                                     Inl e \<Rightarrow> Inl e
                                   | Inr s \<Rightarrow> Inr (appendString k @ '':'' @ s))
                       (sort_key fst m)) of
       Inl e \<Rightarrow> Inl e
     | Inr parts \<Rightarrow> Inr (''{'' @ join_comma parts @ ''}''))"
| "json_Marshal (INode None) = Inr ''null''"
| "json_Marshal (INode (Some d)) = json_Marshal d"

section \<open>go-simplejson\<close>

text \<open>
  The library \<^verbatim>\<open>github.com/bitly/go-simplejson\<close> is imported by the repository, not part
  of it. Its methods on \<^verbatim>\<open>*simplejson.Json\<close> that betterjson calls are written here as
  functions of the field \<^verbatim>\<open>data\<close> of the receiver:
  \<^item> \<^verbatim>\<open>New()\<close> is \<^verbatim>\<open>&Json{data: make(map[string]interface{})}\<close>, \<^verbatim>\<open>Interface()\<close> returns
    \<^verbatim>\<open>j.data\<close>, and \<^verbatim>\<open>Encode()\<close> is \<^verbatim>\<open>json.Marshal(&j.data)\<close>;
  \<^item> \<^verbatim>\<open>Map()\<close> and \<^verbatim>\<open>Array()\<close> are the type assertions of \<^verbatim>\<open>j.data\<close> to
    \<^verbatim>\<open>map[string]interface{}\<close> and to \<^verbatim>\<open>[]interface{}\<close>;
  \<^item> \<^verbatim>\<open>Get(key)\<close> calls \<^verbatim>\<open>j.Map()\<close> and returns \<^verbatim>\<open>&Json{val}\<close> for a key the map has and
    \<^verbatim>\<open>&Json{nil}\<close> otherwise; \<^verbatim>\<open>CheckGet(key)\<close> returns \<^verbatim>\<open>(&Json{val}, true)\<close> or
    \<^verbatim>\<open>(nil, false)\<close>; \<^verbatim>\<open>GetIndex(index)\<close> calls \<^verbatim>\<open>j.Array()\<close> and returns
    \<^verbatim>\<open>&Json{a[index]}\<close> when \<^verbatim>\<open>len(a) > index\<close> and \<^verbatim>\<open>&Json{nil}\<close> otherwise;
  \<^item> \<^verbatim>\<open>Set(key, val)\<close> and \<^verbatim>\<open>Del(key)\<close> call \<^verbatim>\<open>j.Map()\<close> and do nothing when it fails;
    \<^verbatim>\<open>SetPath(branch, val)\<close> assigns \<^verbatim>\<open>j.data = val\<close> for the empty branch and otherwise
    walks the branch, creating the maps that are missing.

  Each of these methods reads \<^verbatim>\<open>j.data\<close> and none tests \<^verbatim>\<open>j\<close> against nil, so a call
  through a nil pointer panics with a nil pointer dereference; the callers below write
  that case out wherever nothing guards it. A method that returns a
  \<^verbatim>\<open>*simplejson.Json\<close> returns an \<open>iface option\<close>.
\<close>

definition sj_New :: "iface" where
  "sj_New = IMap []"

definition sj_Interface :: "iface \<Rightarrow> iface" where
  "sj_Interface d = d"

definition sj_Encode :: "iface \<Rightarrow> error + string" where
  "sj_Encode d = json_Marshal d"

definition sj_Map :: "iface \<Rightarrow> error + (string \<times> iface) list" where
  "sj_Map d =
    (case d of
       IMap m \<Rightarrow> Inr m
     | _ \<Rightarrow> Inl (Error ''type assertion to map[string]interface{} failed''))"

definition sj_Array :: "iface \<Rightarrow> error + iface list" where
  "sj_Array d =
    (case d of
       ISlice a \<Rightarrow> Inr a
     | _ \<Rightarrow> Inl (Error ''type assertion to []interface{} failed''))"

definition sj_Get :: "iface \<Rightarrow> string \<Rightarrow> iface option" where
  "sj_Get d key =
    (case sj_Map d of
       Inr m \<Rightarrow> (case map_of m key of Some v \<Rightarrow> Some v | None \<Rightarrow> Some INil)
     | Inl err \<Rightarrow> Some INil)"

definition sj_CheckGet :: "iface \<Rightarrow> string \<Rightarrow> iface option \<times> bool" where
  "sj_CheckGet d key =
    (case sj_Map d of
       Inr m \<Rightarrow> (case map_of m key of Some v \<Rightarrow> (Some v, True) | None \<Rightarrow> (None, False))
     | Inl err \<Rightarrow> (None, False))"

text \<open>
  \<^verbatim>\<open>GetIndex\<close> compares \<^verbatim>\<open>len(a) > index\<close> only, so a negative index reaches
  \<^verbatim>\<open>a[index]\<close> and panics.
\<close>

definition sj_GetIndex :: "iface \<Rightarrow> int \<Rightarrow> panic + iface option" where
  "sj_GetIndex d index =
    (case sj_Array d of
       Inr a \<Rightarrow>
         if int (length a) > index then
           (if index < 0 then Inl IndexOutOfRange else Inr (Some (a ! nat index)))
         else Inr (Some INil)
     | Inl err \<Rightarrow> Inr (Some INil))"

text \<open>\<^verbatim>\<open>Set\<close> and \<^verbatim>\<open>Del\<close> change the map in place: the result is the new \<^verbatim>\<open>data\<close>.\<close>

definition sj_Set :: "iface \<Rightarrow> string \<Rightarrow> iface \<Rightarrow> iface" where
  "sj_Set d key val =
    (case sj_Map d of
       Inl err \<Rightarrow> d
     | Inr m \<Rightarrow> IMap (AList.update key val m))"

definition sj_Del :: "iface \<Rightarrow> string \<Rightarrow> iface" where
  "sj_Del d key =
    (case sj_Map d of
       Inl err \<Rightarrow> d
     | Inr m \<Rightarrow> IMap (AList.delete key m))"

fun sj_SetPath_walk :: "(string \<times> iface) list \<Rightarrow> string list \<Rightarrow> iface \<Rightarrow> (string \<times> iface) list" where
  "sj_SetPath_walk cur [] val = cur"
| "sj_SetPath_walk cur [b] val = AList.update b val cur"
| "sj_SetPath_walk cur (b # b' # bs) val =
    (case map_of cur b of
       Some (IMap n) \<Rightarrow> AList.update b (IMap (sj_SetPath_walk n (b' # bs) val)) cur
     | _ \<Rightarrow> AList.update b (IMap (sj_SetPath_walk [] (b' # bs) val)) cur)"

definition sj_SetPath :: "iface \<Rightarrow> string list \<Rightarrow> iface \<Rightarrow> iface" where
  "sj_SetPath d branch val =
    (if length branch = 0 then val
     else
       let cur = (case d of IMap m \<Rightarrow> m | _ \<Rightarrow> [])
       in IMap (sj_SetPath_walk cur branch val))"

section \<open>betterjson: the wrapper\<close>

text \<open>
  \<^verbatim>\<open>type Json struct { value *simplejson.Json }\<close>. The field is called \<open>jvalue\<close> here.
  A receiver is a \<open>Json\<close>; a \<^verbatim>\<open>*Json\<close> that may be nil is a \<open>Json option\<close>.
\<close>

record Json =
  jvalue :: "iface option"

definition FromSimpleJson :: "iface option \<Rightarrow> error + Json" where
  "FromSimpleJson jsonVal =
    (if jsonVal = None then Inl (Error ''can't parse null to json'')
     else Inr \<lparr>jvalue = jsonVal\<rparr>)"

definition FromNotEmptySimpleJson :: "iface option \<Rightarrow> Json" where
  "FromNotEmptySimpleJson jsonVal = \<lparr>jvalue = jsonVal\<rparr>"

definition NewEmpty :: "Json" where
  "NewEmpty = \<lparr>jvalue = None\<rparr>"

definition NewJSONObject :: "Json" where
  "NewJSONObject = \<lparr>jvalue = Some sj_New\<rparr>"

definition NewJSONArray :: "Json" where
  "NewJSONArray = \<lparr>jvalue = Some (sj_SetPath sj_New [] (ISlice []))\<rparr>"

definition IsEmpty :: "Json \<Rightarrow> bool" where
  "IsEmpty val = (jvalue val = None)"

text \<open>\<^verbatim>\<open>IsNullJson\<close> calls \<^verbatim>\<open>val.value.Encode()\<close> with no guard.\<close>

definition IsNullJson :: "Json \<Rightarrow> panic + bool" where
  "IsNullJson val =
    (case jvalue val of
       None \<Rightarrow> Inl NilPointerDereference
     | Some d \<Rightarrow>
         (case sj_Encode d of
            Inl err \<Rightarrow> Inr False
          | Inr encoded \<Rightarrow> Inr (length encoded = 4 \<and> encoded = ''null'')))"

definition IsEmptyOrNull :: "Json \<Rightarrow> panic + bool" where
  "IsEmptyOrNull j = (if IsEmpty j then Inr True else IsNullJson j)"

definition Select :: "Json \<Rightarrow> string \<Rightarrow> Json" where
  "Select val key =
    (case jvalue val of
       None \<Rightarrow> val
     | Some d \<Rightarrow>
         (case sj_CheckGet d key of
            (item, ok) \<Rightarrow> if \<not> ok then val else FromNotEmptySimpleJson item))"

definition CheckGet :: "Json \<Rightarrow> string \<Rightarrow> Json" where
  "CheckGet j key =
    (case jvalue j of
       None \<Rightarrow> j
     | Some d \<Rightarrow>
         (case sj_CheckGet d key of
            (item, ok) \<Rightarrow> if \<not> ok then NewEmpty else FromNotEmptySimpleJson item))"

text \<open>
  \<^verbatim>\<open>Get\<close> and \<^verbatim>\<open>GetIndex\<close> call the library through \<^verbatim>\<open>j.value\<close> with no guard.
\<close>

definition Get :: "Json \<Rightarrow> string \<Rightarrow> panic + Json" where
  "Get j key =
    (case jvalue j of
       None \<Rightarrow> Inl NilPointerDereference
     | Some d \<Rightarrow> Inr (FromNotEmptySimpleJson (sj_Get d key)))"

definition GetIndex :: "Json \<Rightarrow> int \<Rightarrow> panic + Json" where
  "GetIndex j index =
    (case jvalue j of
       None \<Rightarrow> Inl NilPointerDereference
     | Some d \<Rightarrow>
         (case sj_GetIndex d index of
            Inl p \<Rightarrow> Inl p
          | Inr item \<Rightarrow> Inr (FromNotEmptySimpleJson item)))"

definition Map :: "Json \<Rightarrow> error + (string \<times> iface) list" where
  "Map j =
    (case jvalue j of
       None \<Rightarrow> Inl (Error ''empty json parse to map[string]interface{} failed'')
     | Some d \<Rightarrow> sj_Map d)"

definition Array :: "Json \<Rightarrow> error + iface list" where
  "Array j =
    (case jvalue j of
       None \<Rightarrow> Inl (Error ''empty json parse to []interface{} failed'')
     | Some d \<Rightarrow> sj_Array d)"

definition Encode :: "Json \<Rightarrow> error + string" where
  "Encode j =
    (case jvalue j of
       None \<Rightarrow> Inl (Error ''empty json can't be encoded'')
     | Some d \<Rightarrow> sj_Encode d)"

definition ContainsKey :: "Json \<Rightarrow> string \<Rightarrow> bool" where
  "ContainsKey j key =
    (if IsEmpty j then False
     else let val = CheckGet j key in \<not> IsEmpty val)"

definition ArrayLength :: "Json \<Rightarrow> int" where
  "ArrayLength j =
    (case Array j of
       Inl err \<Rightarrow> 0
     | Inr jsonArray \<Rightarrow> int (length jsonArray))"

section \<open>betterjson: mutation\<close>

text \<open>
  The \<^verbatim>\<open>val interface{}\<close> of \<^verbatim>\<open>Set\<close>, \<^verbatim>\<open>SetPath\<close> and \<^verbatim>\<open>TryAdd\<close>: a \<^verbatim>\<open>*Json\<close> (nil or
  not), or any of the values above; \<open>ArgVal INil\<close> is the nil interface and
  \<open>ArgVal (INode p)\<close> a \<^verbatim>\<open>*simplejson.Json\<close>. Every mutating method ends in \<^verbatim>\<open>return j\<close>:
  its model returns the state of the receiver after the call.
\<close>

datatype arg = ArgJson "Json option" | ArgVal iface

definition Set :: "Json \<Rightarrow> string \<Rightarrow> arg \<Rightarrow> panic + Json" where
  "Set j key val =
    (case jvalue j of
       None \<Rightarrow> Inr j
     | Some d \<Rightarrow>
         (case val of
            ArgVal INil \<Rightarrow> Inr (j\<lparr>jvalue := Some (sj_Set d key INil)\<rparr>)
          | ArgJson valJson \<Rightarrow>
              (case valJson of
                 None \<Rightarrow> Inl NilPointerDereference
               | Some vj \<Rightarrow>
                   (case jvalue vj of
                      None \<Rightarrow> Inr (j\<lparr>jvalue := Some (sj_Set d key INil)\<rparr>)
                    | Some vd \<Rightarrow> Inr (j\<lparr>jvalue := Some (sj_Set d key (sj_Interface vd))\<rparr>)))
          | ArgVal (INode valSimpleJson) \<Rightarrow>
              (case valSimpleJson of
                 None \<Rightarrow> Inl NilPointerDereference
               | Some vd \<Rightarrow> Inr (j\<lparr>jvalue := Some (sj_Set d key (sj_Interface vd))\<rparr>))
          | ArgVal v \<Rightarrow> Inr (j\<lparr>jvalue := Some (sj_Set d key v)\<rparr>)))"

text \<open>\<^verbatim>\<open>*j = *valJson\<close> copies the struct: the receiver's state becomes that of \<open>valJson\<close>.\<close>

definition SetPath :: "Json \<Rightarrow> string list \<Rightarrow> arg \<Rightarrow> panic + Json" where
  "SetPath j branch val =
    (case jvalue j of
       None \<Rightarrow>
         (case val of
            ArgJson valJson \<Rightarrow>
              (case valJson of None \<Rightarrow> Inl NilPointerDereference | Some vj \<Rightarrow> Inr vj)
          | ArgVal v \<Rightarrow> Inr (j\<lparr>jvalue := Some (sj_SetPath sj_New branch v)\<rparr>))
     | Some d \<Rightarrow>
         if length branch = 0 then
           (case val of
              ArgJson valJson \<Rightarrow>
                (case valJson of None \<Rightarrow> Inl NilPointerDereference | Some vj \<Rightarrow> Inr vj)
            | ArgVal v \<Rightarrow> Inr (j\<lparr>jvalue := Some (sj_SetPath d branch v)\<rparr>))
         else
           (case val of
              ArgJson valJson \<Rightarrow>
                (case valJson of
                   None \<Rightarrow> Inl NilPointerDereference
                 | Some vj \<Rightarrow> Inr (j\<lparr>jvalue := Some (sj_SetPath d branch (INode (jvalue vj)))\<rparr>))
            | ArgVal v \<Rightarrow> Inr (j\<lparr>jvalue := Some (sj_SetPath d branch v)\<rparr>)))"

definition Del :: "Json \<Rightarrow> string \<Rightarrow> Json" where
  "Del j key =
    (case jvalue j of
       None \<Rightarrow> j
     | Some d \<Rightarrow> j\<lparr>jvalue := Some (sj_Del d key)\<rparr>)"

definition TryAdd :: "Json \<Rightarrow> arg \<Rightarrow> panic + Json" where
  "TryAdd j val =
    (case Array j of
       Inl err \<Rightarrow> Inr j
     | Inr jsonArray \<Rightarrow>
         (case val of
            ArgJson valJson \<Rightarrow>
              (case valJson of
                 None \<Rightarrow> Inl NilPointerDereference
               | Some vj \<Rightarrow>
                   if IsEmpty vj then SetPath j [] (ArgVal (ISlice (jsonArray @ [INil])))
                   else SetPath j [] (ArgVal (ISlice (jsonArray @ [INode (jvalue vj)]))))
          | ArgVal v \<Rightarrow> SetPath j [] (ArgVal (ISlice (jsonArray @ [v])))))"

definition SetValue :: "Json \<Rightarrow> arg \<Rightarrow> panic + Json" where
  "SetValue j val = SetPath j [] val"

section \<open>betterjson: the keyed pipeline\<close>

text \<open>
  The loop of \<^verbatim>\<open>GetKeyValuesIfAllContains\<close>, with \<^verbatim>\<open>result\<close> as its state. What
  \<^verbatim>\<open>CheckGet\<close> of the library returns is a \<^verbatim>\<open>*simplejson.Json\<close>, and that pointer is what
  \<^verbatim>\<open>result.Set\<close> stores.
\<close>

fun GetKeyValuesIfAllContains_loop :: "iface \<Rightarrow> string list \<Rightarrow> iface \<Rightarrow> iface \<Rightarrow> Json" where
  "GetKeyValuesIfAllContains_loop d [] result emptyInnerJson =
     FromNotEmptySimpleJson (Some result)"
| "GetKeyValuesIfAllContains_loop d (key # keys) result emptyInnerJson =
    (case sj_CheckGet d key of
       (itemVal, ok) \<Rightarrow>
         if \<not> ok then FromNotEmptySimpleJson (Some emptyInnerJson)
         else GetKeyValuesIfAllContains_loop d keys (sj_Set result key (INode itemVal))
                emptyInnerJson)"

definition GetKeyValuesIfAllContains :: "Json \<Rightarrow> string list \<Rightarrow> Json" where
  "GetKeyValuesIfAllContains val keys =
    (case jvalue val of
       None \<Rightarrow> val
     | Some d \<Rightarrow> GetKeyValuesIfAllContains_loop d keys sj_New sj_New)"

text \<open>
  A \<^verbatim>\<open>JsonKeyValueProcessor\<close> is a Go function: besides returning a \<^verbatim>\<open>*Json\<close> it may have
  effects. It is a function of its three arguments and of a state \<open>'w\<close> that it may
  change, so that whether and in which order the processors ran can be read off the state.
\<close>

type_synonym 'w JsonKeyValueProcessor = "Json \<Rightarrow> string \<Rightarrow> Json \<Rightarrow> 'w \<Rightarrow> Json \<times> 'w"

text \<open>The \<^verbatim>\<open>for i, key := range keys\<close> of \<^verbatim>\<open>TrampolineKeys\<close>, from index \<open>i\<close> on.\<close>

fun TrampolineKeys_loop ::
  "Json \<Rightarrow> 'w JsonKeyValueProcessor list \<Rightarrow> nat \<Rightarrow> string list \<Rightarrow> Json \<Rightarrow> 'w \<Rightarrow> panic + Json \<times> 'w" where
  "TrampolineKeys_loop j processors i [] resultJson w = Inr (resultJson, w)"
| "TrampolineKeys_loop j processors i (key # keys) resultJson w =
    (if i < length processors then
       let processor = processors ! i;
           item = CheckGet j key
       in case processor resultJson key item w of
            (resultJson', w') \<Rightarrow> TrampolineKeys_loop j processors (Suc i) keys resultJson' w'
     else Inl IndexOutOfRange)"

definition TrampolineKeys ::
  "Json \<Rightarrow> string list \<Rightarrow> 'w JsonKeyValueProcessor list \<Rightarrow> Json \<Rightarrow> 'w
     \<Rightarrow> panic + (Json \<times> error option) \<times> 'w" where
  "TrampolineKeys j keys processors initJson w =
    (if IsEmpty j then Inr ((initJson, None), w)
     else
       let resultJson = initJson in
       if length keys > length processors then
         Inr ((initJson, Some (Error ''keys count great than processor funcs count'')), w)
       else
         (case TrampolineKeys_loop j processors 0 keys resultJson w of
            Inl p \<Rightarrow> Inl p
          | Inr (resultJson', w') \<Rightarrow> Inr ((resultJson', None), w')))"

section \<open>betterjson: typed extraction\<close>

text \<open>
  The assertive accessors of the library have one shape: at most one default argument
  (more is a \<^verbatim>\<open>log.Panicf\<close>), then the coercion, then the coerced result or the default.
  \<open>zero\<close> is the zero of the result type and \<open>conv\<close> the fallible accessor of the
  library.
\<close>

definition sj_Must ::
  "string \<Rightarrow> 'a \<Rightarrow> (iface \<Rightarrow> error + 'a) \<Rightarrow> iface \<Rightarrow> 'a list \<Rightarrow> panic + 'a" where
  "sj_Must name zero conv d args =
    (case args of
       [] \<Rightarrow> (case conv d of Inr x \<Rightarrow> Inr x | Inl err \<Rightarrow> Inr zero)
     | [def] \<Rightarrow> (case conv d of Inr x \<Rightarrow> Inr x | Inl err \<Rightarrow> Inr def)
     | _ \<Rightarrow> Inl (LogPanicf (name @ ''() received too many arguments %d'') [length args]))"

definition sj_String :: "iface \<Rightarrow> error + string" where
  "sj_String d =
    (case d of
       IString s \<Rightarrow> Inr s
     | _ \<Rightarrow> Inl (Error ''type assertion to string failed''))"

definition sj_Bool :: "iface \<Rightarrow> error + bool" where
  "sj_Bool d =
    (case d of
       IBool b \<Rightarrow> Inr b
     | _ \<Rightarrow> Inl (Error ''type assertion to bool failed''))"

fun sj_StringArray_loop :: "iface list \<Rightarrow> string list \<Rightarrow> error + string list" where
  "sj_StringArray_loop [] retArr = Inr retArr"
| "sj_StringArray_loop (INil # arr) retArr = sj_StringArray_loop arr (retArr @ [[]])"
| "sj_StringArray_loop (IString s # arr) retArr = sj_StringArray_loop arr (retArr @ [s])"
| "sj_StringArray_loop (a # arr) retArr = Inl (Error ''type assertion to []string failed'')"

definition sj_StringArray :: "iface \<Rightarrow> error + string list" where
  "sj_StringArray d =
    (case sj_Array d of
       Inl err \<Rightarrow> Inl err
     | Inr arr \<Rightarrow> sj_StringArray_loop arr [])"

text \<open>
  The nine assertive accessors of betterjson. The numeric coercions of the library
  (\<^verbatim>\<open>Int\<close>, \<^verbatim>\<open>Int64\<close>, \<^verbatim>\<open>Uint64\<close>, \<^verbatim>\<open>Float64\<close>) parse and convert numbers; they are
  taken as the parameter \<open>conv\<close>, and the type of a \<^verbatim>\<open>float64\<close> and its zero are left open.
  The \<^verbatim>\<open>return\<close> after each \<^verbatim>\<open>log.Panicf\<close> is never reached.
\<close>

definition MustArray :: "Json \<Rightarrow> iface list list \<Rightarrow> panic + iface list" where
  "MustArray j args =
    (case jvalue j of
       None \<Rightarrow> Inl (LogPanicf ''empty json MustArray failed'' [])
     | Some d \<Rightarrow> sj_Must ''MustArray'' [] sj_Array d args)"

definition MustMap ::
  "Json \<Rightarrow> (string \<times> iface) list list \<Rightarrow> panic + (string \<times> iface) list" where
  "MustMap j args =
    (case jvalue j of
       None \<Rightarrow> Inl (LogPanicf ''empty json MustMap failed'' [])
     | Some d \<Rightarrow> sj_Must ''MustMap'' [] sj_Map d args)"

definition MustString :: "Json \<Rightarrow> string list \<Rightarrow> panic + string" where
  "MustString j args =
    (case jvalue j of
       None \<Rightarrow> Inl (LogPanicf ''empty json MustString failed'' [])
     | Some d \<Rightarrow> sj_Must ''MustString'' [] sj_String d args)"

definition MustStringArray :: "Json \<Rightarrow> string list list \<Rightarrow> panic + string list" where
  "MustStringArray j args =
    (case jvalue j of
       None \<Rightarrow> Inl (LogPanicf ''empty json MustStringArray failed'' [])
     | Some d \<Rightarrow> sj_Must ''MustStringArray'' [] sj_StringArray d args)"

definition MustInt :: "(iface \<Rightarrow> error + int) \<Rightarrow> Json \<Rightarrow> int list \<Rightarrow> panic + int" where
  "MustInt conv j args =
    (case jvalue j of
       None \<Rightarrow> Inl (LogPanicf ''empty json MustInt failed'' [])
     | Some d \<Rightarrow> sj_Must ''MustInt'' 0 conv d args)"

definition MustFloat64 :: "'f \<Rightarrow> (iface \<Rightarrow> error + 'f) \<Rightarrow> Json \<Rightarrow> 'f list \<Rightarrow> panic + 'f" where
  "MustFloat64 zero conv j args =
    (case jvalue j of
       None \<Rightarrow> Inl (LogPanicf ''empty json MustFloat64 failed'' [])
     | Some d \<Rightarrow> sj_Must ''MustFloat64'' zero conv d args)"

definition MustBool :: "Json \<Rightarrow> bool list \<Rightarrow> panic + bool" where
  "MustBool j args =
    (case jvalue j of
       None \<Rightarrow> Inl (LogPanicf ''empty json MustBool failed'' [])
     | Some d \<Rightarrow> sj_Must ''MustBool'' False sj_Bool d args)"

definition MustInt64 :: "(iface \<Rightarrow> error + int) \<Rightarrow> Json \<Rightarrow> int list \<Rightarrow> panic + int" where
  "MustInt64 conv j args =
    (case jvalue j of
       None \<Rightarrow> Inl (LogPanicf ''empty json MustInt64 failed'' [])
     | Some d \<Rightarrow> sj_Must ''MustInt64'' 0 conv d args)"

definition MustUint64 :: "(iface \<Rightarrow> error + nat) \<Rightarrow> Json \<Rightarrow> nat list \<Rightarrow> panic + nat" where
  "MustUint64 conv j args =
    (case jvalue j of
       None \<Rightarrow> Inl (LogPanicf ''empty json MustUint64 failed'' [])
     | Some d \<Rightarrow> sj_Must ''MustUint64'' 0 conv d args)"

section \<open>betterjson: digest and equality\<close>

text \<open>
  \<^verbatim>\<open>DigestJSONForEqual\<close> recurses through \<^verbatim>\<open>GetIndex\<close> and \<^verbatim>\<open>Get\<close>, which wrap an element
  of the receiver's value; \<open>jsize\<close> measures a wrapper by the value it holds. The two
  loops write into \<^verbatim>\<open>digestBuffer\<close>; \<^verbatim>\<open>range jsonMap\<close> visits the keys in the order of the
  association list, and \<^verbatim>\<open>sort.Strings\<close> sorts them ascending, byte by byte.
\<close>

definition jsize :: "Json \<Rightarrow> nat" where
  "jsize j = (case jvalue j of None \<Rightarrow> 0 | Some d \<Rightarrow> Suc (size d))"

function DigestJSONForEqual :: "Json \<Rightarrow> panic + string" where
  "DigestJSONForEqual j =
    (if IsEmpty j then Inr ''nil''
     else
       let jsonVal = j in
       case Array jsonVal of
         Inr jsonArray \<Rightarrow>
           (case fold (\<lambda>idx buf.
                         case buf of
                           Inl p \<Rightarrow> Inl p
                         | Inr digestBuffer \<Rightarrow>
                             (case GetIndex jsonVal (int idx) of
                                Inl p \<Rightarrow> Inl p
                              | Inr itemJson \<Rightarrow>
                                  (case DigestJSONForEqual itemJson of
                                     Inl p \<Rightarrow> Inl p
                                   | Inr s \<Rightarrow>
                                       Inr (digestBuffer @ (if idx > 0 then '','' else []) @ s))))
                      [0..<length jsonArray] (Inr ''['') of
              Inl p \<Rightarrow> Inl p
            | Inr digestBuffer \<Rightarrow> Inr (digestBuffer @ '']''))
       | Inl err \<Rightarrow>
           (case Map jsonVal of
              Inr jsonMap \<Rightarrow>
                (let keys = sort (map fst jsonMap) in
                 case fold (\<lambda>(idx, key) buf.
                              case buf of
                                Inl p \<Rightarrow> Inl p
                              | Inr digestBuffer \<Rightarrow>
                                  (let digestBuffer = digestBuffer @ (if idx > 0 then '','' else [])
                                   in case json_Marshal (IString key) of
                                        Inl err \<Rightarrow>
                                          Inr (digestBuffer @ CHR 0x22 # ''error'' @ CHR 0x22 # '':''
                                                 @ CHR 0x22 # ''error'' @ [CHR 0x22])
                                      | Inr keyEncode \<Rightarrow>
                                          (case Get jsonVal key of
                                             Inl p \<Rightarrow> Inl p
                                           | Inr item \<Rightarrow>
                                               (case DigestJSONForEqual item of
                                                  Inl p \<Rightarrow> Inl p
                                                | Inr s \<Rightarrow>
                                                    Inr (digestBuffer @ keyEncode @ '':'' @ s)))))
                           (zip [0..<length keys] keys) (Inr ''{'') of
                   Inl p \<Rightarrow> Inl p
                 | Inr digestBuffer \<Rightarrow> Inr (digestBuffer @ ''}''))
            | Inl err \<Rightarrow>
                (case Encode jsonVal of
                   Inl err \<Rightarrow> Inr ''error''
                 | Inr encoded \<Rightarrow> Inr encoded)))"
  by pat_completeness auto
termination
proof (relation "measure jsize", goal_cases)
  case 1
  show ?case by simp
next
  case 2
  have "size v < size (IMap m)" if "(k, v) \<in> set m"
    for k v and m :: "(string \<times> iface) list"
    using that by (induction m) auto
  with 2 show ?case
    by (auto simp: Map_def Get_def sj_Map_def sj_Get_def jsize_def
          FromNotEmptySimpleJson_def split: option.splits iface.splits dest!: map_of_SomeD)
next
  case 3
  have "size x < size (ISlice a)" if "x \<in> set a" for x and a :: "iface list"
    using that by (induction a) auto
  from this [OF nth_mem] 3 show ?case
    by (auto simp: Array_def GetIndex_def sj_Array_def sj_GetIndex_def jsize_def
          FromNotEmptySimpleJson_def split: option.splits iface.splits)
qed

declare DigestJSONForEqual.simps [simp del]

text \<open>\<open>other\<close> is a \<^verbatim>\<open>*Json\<close> that may be nil.\<close>

definition IsSameJSONWith :: "Json \<Rightarrow> Json option \<Rightarrow> panic + bool" where
  "IsSameJSONWith j other =
    (if other = None \<or> IsEmpty (the other) then Inr (IsEmpty j)
     else
       (case DigestJSONForEqual j of
          Inl p \<Rightarrow> Inl p
        | Inr dj \<Rightarrow>
            (case DigestJSONForEqual (the other) of
               Inl p \<Rightarrow> Inl p
             | Inr dother \<Rightarrow> Inr (dj = dother))))"

section \<open>Notions used in the statements and proofs\<close>

text \<open>
  \<open>digest_of\<close> is the string that \<^verbatim>\<open>DigestJSONForEqual\<close> returns for a receiver that
  holds the value, with the two loops written as joins.
\<close>

fun digest_of :: "iface \<Rightarrow> string" where
  "digest_of (ISlice a) = ''['' @ join_comma (map digest_of a) @ '']''"
| "digest_of (IMap m) =
    (let dm = map (\<lambda>(k, v). (k, digest_of v)) m
     in ''{'' @ join_comma (map (\<lambda>key. appendString key @ '':''
                                     @ (case map_of dm key of Some s \<Rightarrow> s | None \<Rightarrow> ''null''))
                             (sort (map fst m))) @ ''}'')"
| "digest_of v = (case json_Marshal v of Inl err \<Rightarrow> ''error'' | Inr encoded \<Rightarrow> encoded)"

text \<open>The characters of a number literal.\<close>

definition num_char :: "char \<Rightarrow> bool" where
  "num_char c = (is_digit c \<or> c = CHR ''-'' \<or> c = CHR ''+'' \<or> c = CHR ''.'' \<or> c = CHR ''e'' \<or> c = CHR ''E'')"

text \<open>
  \<open>ValidString\<close> is \<^verbatim>\<open>utf8.ValidString\<close>: decoding never yields \<^verbatim>\<open>(RuneError, 1)\<close>.
  \<open>unquote\<close> reads an encoded string, after its opening quote, up to the closing quote,
  and returns the string and the text after it.
\<close>

fun ValidString :: "string \<Rightarrow> bool" where
  "ValidString [] = True"
| "ValidString (c # cs) =
    (case DecodeRuneInString (map of_char (take 4 (c # cs))) of
       (r, width) \<Rightarrow> \<not> (r = RuneError \<and> width = 1) \<and> ValidString (drop (width - 1) cs))"

definition unhex :: "char \<Rightarrow> nat" where
  "unhex h = (if is_digit h then of_char h - 48 else of_char h - 87)"

definition unescape_char :: "char \<Rightarrow> char" where
  "unescape_char e =
    (if e = CHR ''b'' then CHR 0x08 else if e = CHR ''f'' then CHR 0x0C
     else if e = CHR ''n'' then CHR 0x0A else if e = CHR ''r'' then CHR 0x0D
     else if e = CHR ''t'' then CHR 0x09 else e)"

definition unescape_unicode :: "string \<Rightarrow> string" where
  "unescape_unicode hs =
    (if take 2 hs = ''00'' then [char_of (unhex (hs ! 2) * 16 + unhex (hs ! 3))]
     else [CHR 0xE2, CHR 0x80, if hs ! 3 = CHR ''8'' then CHR 0xA8 else CHR 0xA9])"

definition pre :: "string \<Rightarrow> (string \<times> string) option \<Rightarrow> (string \<times> string) option" where
  "pre xs p = map_option (\<lambda>(s, rest). (xs @ s, rest)) p"

function unquote :: "string \<Rightarrow> (string \<times> string) option" where
  "unquote [] = None"
| "unquote (c # cs) =
    (if c = CHR 0x22 then Some ([], cs)
     else if c \<noteq> CHR 0x5C then pre [c] (unquote cs)
     else
       (case cs of
          [] \<Rightarrow> None
        | e # r \<Rightarrow>
            if e = CHR ''u'' then pre (unescape_unicode (take 4 r)) (unquote (drop 4 r))
            else pre [unescape_char e] (unquote r)))"
  by pat_completeness auto
termination
  by (relation "measure length") auto

text \<open>
  \<open>doc v\<close>: the value is a JSON document that the encoder accepts, that is, nil,
  booleans, valid number literals, valid UTF-8 strings, arrays and objects of documents
  (an object listed in any order, under distinct keys), and \<^verbatim>\<open>*simplejson.Json\<close> nodes
  that are nil or hold a document; \<^verbatim>\<open>TryAdd\<close> stores such a node for a wrapper argument.
  \<open>norm\<close> lists every object of a value by ascending key and changes nothing else: two
  values with the same \<open>norm\<close> differ only in the order in which \<^verbatim>\<open>range\<close> visits
  their objects. \<open>canon\<close> does the same and replaces a node by the value it holds (a nil
  node by nil): it is the JSON value that a document stands for.
  \<open>plain v\<close> holds of the values that \<open>canon\<close> returns: documents with no node, every
  object listed by ascending key.
\<close>

fun doc :: "iface \<Rightarrow> bool" where
  "doc INil = True"
| "doc (IBool b) = True"
| "doc (INumber n) = isValidNumber n"
| "doc (IString s) = ValidString s"
| "doc (ISlice a) = list_all doc a"
| "doc (IMap m) = (distinct (map fst m) \<and> list_all (\<lambda>(k, v). ValidString k \<and> doc v) m)"
| "doc (INode None) = True"
| "doc (INode (Some v)) = doc v"

fun norm :: "iface \<Rightarrow> iface" where
  "norm (ISlice a) = ISlice (map norm a)"
| "norm (IMap m) = IMap (sort_key fst (map (\<lambda>(k, v). (k, norm v)) m))"
| "norm (INode None) = INode None"
| "norm (INode (Some v)) = INode (Some (norm v))"
| "norm v = v"

fun canon :: "iface \<Rightarrow> iface" where
  "canon (ISlice a) = ISlice (map canon a)"
| "canon (IMap m) = IMap (sort_key fst (map (\<lambda>(k, v). (k, canon v)) m))"
| "canon (INode None) = INil"
| "canon (INode (Some v)) = canon v"
| "canon v = v"

fun plain :: "iface \<Rightarrow> bool" where
  "plain INil = True"
| "plain (IBool b) = True"
| "plain (INumber n) = isValidNumber n"
| "plain (IString s) = ValidString s"
| "plain (ISlice a) = list_all plain a"
| "plain (IMap m) = (sorted_wrt (<) (map fst m) \<and> list_all (\<lambda>(k, v). ValidString k \<and> plain v) m)"
| "plain (INode p) = False"

text \<open>
  \<open>delim\<close> holds of the text that may follow a value inside a digest; \<open>tag\<close> is the kind
  of a value and \<open>cls\<close> the kind that the first character of a digest announces.
\<close>

definition delim :: "string \<Rightarrow> bool" where
  "delim r = (r = [] \<or> hd r = CHR '','' \<or> hd r = CHR '']'' \<or> hd r = CHR ''}'')"

fun tag :: "iface \<Rightarrow> nat" where
  "tag INil = 0"
| "tag (IBool b) = 1"
| "tag (INumber n) = 2"
| "tag (IString s) = 3"
| "tag (ISlice a) = 4"
| "tag (IMap m) = 5"
| "tag (INode p) = 6"

definition cls :: "char \<Rightarrow> nat" where
  "cls c =
    (if c = CHR ''n'' then 0 else if c = CHR ''t'' \<or> c = CHR ''f'' then 1
     else if c = CHR ''-'' \<or> is_digit c then 2 else if c = CHR 0x22 then 3
     else if c = CHR ''['' then 4 else if c = CHR ''{'' then 5 else 7)"

section \<open>Navigation on a missing key and on an Empty receiver\<close>

text \<open>
  Claim C2. For a receiver that holds a JSON object and a key that the object does not
  have, \<^verbatim>\<open>Get(key)\<close> returns a value that holds the nil interface, on which
  \<^verbatim>\<open>IsNullJson\<close> is true, and \<^verbatim>\<open>CheckGet(key)\<close> returns the Empty state, on which
  \<^verbatim>\<open>IsEmpty\<close> is true.
\<close>

theorem Get_absent_key_null_CheckGet_empty:
  assumes "jvalue j = Some (IMap m)" and "key \<notin> fst ` set m"
  shows "(\<exists>r. Get j key = Inr r \<and> jvalue r = Some INil \<and> IsNullJson r = Inr True)
         \<and> CheckGet j key = NewEmpty \<and> IsEmpty (CheckGet j key)"
proof -
  from assms(2) have absent: "map_of m key = None"
    by (simp add: map_of_eq_None_iff)
  have "Get j key = Inr \<lparr>jvalue = Some INil\<rparr>"
    using assms(1) absent by (simp add: Get_def sj_Get_def sj_Map_def FromNotEmptySimpleJson_def)
  moreover have "IsNullJson \<lparr>jvalue = Some INil\<rparr> = Inr True"
    by (simp add: IsNullJson_def sj_Encode_def)
  moreover have "CheckGet j key = NewEmpty"
    using assms(1) absent by (simp add: CheckGet_def sj_CheckGet_def sj_Map_def)
  moreover have "IsEmpty NewEmpty"
    by (simp add: IsEmpty_def NewEmpty_def)
  ultimately show ?thesis by simp
qed

theorem Get_absent_key_witness:
  "(\<exists>r. Get \<lparr>jvalue = Some (IMap [(''hello'', IString ''world'')])\<rparr> ''name'' = Inr r
        \<and> jvalue r = Some INil \<and> IsNullJson r = Inr True)
   \<and> CheckGet \<lparr>jvalue = Some (IMap [(''hello'', IString ''world'')])\<rparr> ''name'' = NewEmpty
   \<and> IsEmpty (CheckGet \<lparr>jvalue = Some (IMap [(''hello'', IString ''world'')])\<rparr> ''name'')"
  using Get_absent_key_null_CheckGet_empty
    [of "\<lparr>jvalue = Some (IMap [(''hello'', IString ''world'')])\<rparr>"
        "[(''hello'', IString ''world'')]" "''name''"]
  by (simp add: IsEmpty_def NewEmpty_def)

text \<open>
  Claim C4. On an Empty receiver \<^verbatim>\<open>Get(key)\<close> and \<^verbatim>\<open>GetIndex(i)\<close> are claimed to
  return a value holding the library's null marker and never to abort. They pass the nil
  \<^verbatim>\<open>j.value\<close> to the library, whose \<^verbatim>\<open>Get\<close> and \<^verbatim>\<open>GetIndex\<close> read the receiver's
  \<^verbatim>\<open>data\<close>: both calls panic. \<^verbatim>\<open>CheckGet\<close>, which tests \<^verbatim>\<open>IsEmpty\<close> first, returns
  the Empty receiver.
\<close>

theorem Get_GetIndex_on_Empty_panic:
  "Get NewEmpty ''top_level'' = Inl NilPointerDereference
   \<and> GetIndex NewEmpty 1 = Inl NilPointerDereference
   \<and> CheckGet NewEmpty ''top_level'' = NewEmpty"
  by (simp add: Get_def GetIndex_def CheckGet_def NewEmpty_def)

section \<open>The assertive accessors on an Empty receiver\<close>

text \<open>
  Claim C3, as the code has it. Each of the nine assertive accessors, called on an Empty
  receiver, ends in \<^verbatim>\<open>log.Panicf\<close> whatever its arguments are: with no default and with
  a default alike. The default is looked at by the library only, which an Empty receiver
  never reaches.
\<close>

theorem Must_on_Empty_panics:
  assumes "IsEmpty j"
  shows "MustInt convi j ai = Inl (LogPanicf ''empty json MustInt failed'' [])
       \<and> MustFloat64 zero convf j af = Inl (LogPanicf ''empty json MustFloat64 failed'' [])
       \<and> MustBool j ab = Inl (LogPanicf ''empty json MustBool failed'' [])
       \<and> MustString j as = Inl (LogPanicf ''empty json MustString failed'' [])
       \<and> MustInt64 convl j al = Inl (LogPanicf ''empty json MustInt64 failed'' [])
       \<and> MustUint64 convu j au = Inl (LogPanicf ''empty json MustUint64 failed'' [])
       \<and> MustMap j am = Inl (LogPanicf ''empty json MustMap failed'' [])
       \<and> MustArray j aa = Inl (LogPanicf ''empty json MustArray failed'' [])
       \<and> MustStringArray j asa = Inl (LogPanicf ''empty json MustStringArray failed'' [])"
  using assms
  by (simp add: IsEmpty_def MustInt_def MustFloat64_def MustBool_def MustString_def
        MustInt64_def MustUint64_def MustMap_def MustArray_def MustStringArray_def)

theorem Must_on_Empty_panics_witness:
  "IsEmpty NewEmpty
   \<and> MustInt (\<lambda>d. Inl (Error [])) NewEmpty [5150]
       = Inl (LogPanicf ''empty json MustInt failed'' [])
   \<and> MustFloat64 (0::int) (\<lambda>d. Inl (Error [])) NewEmpty [5]
       = Inl (LogPanicf ''empty json MustFloat64 failed'' [])
   \<and> MustBool NewEmpty [True] = Inl (LogPanicf ''empty json MustBool failed'' [])
   \<and> MustString NewEmpty [''my_default''] = Inl (LogPanicf ''empty json MustString failed'' [])
   \<and> MustInt64 (\<lambda>d. Inl (Error [])) NewEmpty []
       = Inl (LogPanicf ''empty json MustInt64 failed'' [])
   \<and> MustUint64 (\<lambda>d. Inl (Error [])) NewEmpty [5150]
       = Inl (LogPanicf ''empty json MustUint64 failed'' [])
   \<and> MustMap NewEmpty [[]] = Inl (LogPanicf ''empty json MustMap failed'' [])
   \<and> MustArray NewEmpty [] = Inl (LogPanicf ''empty json MustArray failed'' [])
   \<and> MustStringArray NewEmpty [[''a'']]
       = Inl (LogPanicf ''empty json MustStringArray failed'' [])"
proof -
  have e: "IsEmpty NewEmpty" by (simp add: IsEmpty_def NewEmpty_def)
  show ?thesis
    using e Must_on_Empty_panics [OF e, of "\<lambda>d. Inl (Error [])" "[5150]" "0::int"
        "\<lambda>d. Inl (Error [])" "[5]" "[True]" "[''my_default'']" "\<lambda>d. Inl (Error [])" "[]"
        "\<lambda>d. Inl (Error [])" "[5150]" "[[]]" "[]" "[[''a'']]"]
    by simp
qed

text \<open>
  Claim C3 as stated fails on its second half: \<^verbatim>\<open>MustString("my_default")\<close> on an Empty
  receiver does not return the default.
\<close>

theorem MustString_default_on_Empty_counterexample:
  "MustString NewEmpty [''my_default''] = Inl (LogPanicf ''empty json MustString failed'' [])
   \<and> MustString NewEmpty [''my_default''] \<noteq> Inr ''my_default''"
  by (simp add: MustString_def NewEmpty_def)

section \<open>Mutation of an Empty receiver\<close>

text \<open>
  Claim C8. On an Empty receiver \<^verbatim>\<open>Set\<close>, \<^verbatim>\<open>Del\<close> and \<^verbatim>\<open>TryAdd\<close> return the receiver
  as it was, for every key and every argument: it is still Empty, and nothing was
  written.
\<close>

theorem Empty_mutation_noop:
  assumes "IsEmpty j"
  shows "Set j key val = Inr j \<and> Del j key = j \<and> TryAdd j val = Inr j \<and> IsEmpty j"
  using assms by (simp add: IsEmpty_def Set_def Del_def TryAdd_def Array_def)

theorem Empty_mutation_noop_witness:
  "IsEmpty NewEmpty
   \<and> Set NewEmpty ''hello'' (ArgVal (IString ''world'')) = Inr NewEmpty
   \<and> Del NewEmpty ''hello'' = NewEmpty
   \<and> TryAdd NewEmpty (ArgVal (IString ''world'')) = Inr NewEmpty"
proof -
  have e: "IsEmpty NewEmpty" by (simp add: IsEmpty_def NewEmpty_def)
  show ?thesis
    using e Empty_mutation_noop [OF e, of "''hello''" "ArgVal (IString ''world'')"] by simp
qed

section \<open>TrampolineKeys\<close>

text \<open>
  Claim C9. On an Empty receiver \<^verbatim>\<open>TrampolineKeys\<close> returns the initial accumulator and
  no error, and runs no processor, whatever the lengths of \<open>keys\<close> and \<open>processors\<close> are:
  the test for Empty comes before the comparison of the lengths.
\<close>

theorem TrampolineKeys_Empty:
  assumes "IsEmpty j"
  shows "TrampolineKeys j keys processors initJson w = Inr ((initJson, None), w)"
  using assms by (simp add: TrampolineKeys_def)

theorem TrampolineKeys_Empty_witness:
  "IsEmpty NewEmpty \<and> length [''age'', ''hello''] > length ([] :: nat JsonKeyValueProcessor list)
   \<and> TrampolineKeys NewEmpty [''age'', ''hello''] [] NewJSONObject (0::nat)
       = Inr ((NewJSONObject, None), 0)"
proof -
  have e: "IsEmpty NewEmpty" by (simp add: IsEmpty_def NewEmpty_def)
  show ?thesis
    using e TrampolineKeys_Empty [OF e, of "[''age'', ''hello'']" "[]" NewJSONObject "0::nat"]
    by simp
qed

text \<open>The loop from index \<open>i\<close> on is a left fold over the keys and the processors from \<open>i\<close> on.\<close>

lemma TrampolineKeys_loop_fold:
  "i + length keys \<le> length processors \<Longrightarrow>
   TrampolineKeys_loop j processors i keys resultJson w =
     Inr (fold (\<lambda>(key, processor) (acc, w). processor acc key (CheckGet j key) w)
            (zip keys (drop i processors)) (resultJson, w))"
proof (induction keys arbitrary: i resultJson w)
  case Nil
  then show ?case by simp
next
  case (Cons key keys)
  then have i: "i < length processors" by simp
  then have d: "drop i processors = processors ! i # drop (Suc i) processors"
    by (simp add: Cons_nth_drop_Suc)
  obtain r' w' where step: "(processors ! i) resultJson key (CheckGet j key) w = (r', w')"
    by (cases "(processors ! i) resultJson key (CheckGet j key) w")
  from Cons.prems have "Suc i + length keys \<le> length processors" by simp
  from Cons.IH [OF this] show ?case
    using i by (simp add: d step)
qed

text \<open>
  Claim C7. On a receiver that is not Empty: with more keys than processors the result is
  the initial accumulator together with the arity error, and the state \<open>w\<close> is untouched
  (no processor ran); otherwise the result, with no error, is the left fold that gives the
  \<open>i\<close>-th processor the accumulator, the \<open>i\<close>-th key and \<^verbatim>\<open>CheckGet\<close> of that key, once for
  each key and in the order of the keys.
\<close>

theorem TrampolineKeys_fold:
  assumes "\<not> IsEmpty j"
  shows "TrampolineKeys j keys processors initJson w =
          (if length keys > length processors then
             Inr ((initJson, Some (Error ''keys count great than processor funcs count'')), w)
           else
             (case fold (\<lambda>(key, processor) (acc, w). processor acc key (CheckGet j key) w)
                     (zip keys processors) (initJson, w) of
                (resultJson, w') \<Rightarrow> Inr ((resultJson, None), w')))"
  using assms TrampolineKeys_loop_fold [of 0 keys processors j initJson w]
  by (simp add: TrampolineKeys_def split: prod.splits)

theorem TrampolineKeys_fold_witness:
  "\<not> IsEmpty \<lparr>jvalue = Some (IMap [(''hello'', IString ''world''), (''times'', INumber ''123'')])\<rparr>
   \<and> TrampolineKeys
        \<lparr>jvalue = Some (IMap [(''hello'', IString ''world''), (''times'', INumber ''123'')])\<rparr>
        [''age'', ''hello'']
        [\<lambda>acc key item w. (acc, w @ [(key, IsEmpty item)]),
         \<lambda>acc key item w. (acc, w @ [(key, IsEmpty item)])]
        NewJSONObject []
       = Inr ((NewJSONObject, None), [(''age'', True), (''hello'', False)])
   \<and> TrampolineKeys
        \<lparr>jvalue = Some (IMap [(''hello'', IString ''world''), (''times'', INumber ''123'')])\<rparr>
        [''age'', ''hello'']
        [\<lambda>acc key item w. (acc, w @ [(key, IsEmpty item)])]
        NewJSONObject []
       = Inr ((NewJSONObject, Some (Error ''keys count great than processor funcs count'')), [])"
proof -
  let ?j = "\<lparr>jvalue = Some (IMap [(''hello'', IString ''world''), (''times'', INumber ''123'')])\<rparr>"
  let ?p = "\<lambda>(acc::Json) (key::string) item (w::(string \<times> bool) list).
              (acc, w @ [(key, IsEmpty item)])"
  have ne: "\<not> IsEmpty ?j" by (simp add: IsEmpty_def)
  show ?thesis
    using ne TrampolineKeys_fold [OF ne, of "[''age'', ''hello'']" "[?p, ?p]" NewJSONObject "[]"]
      TrampolineKeys_fold [OF ne, of "[''age'', ''hello'']" "[?p]" NewJSONObject "[]"]
    by (simp add: CheckGet_def sj_CheckGet_def sj_Map_def IsEmpty_def NewEmpty_def
          FromNotEmptySimpleJson_def)
qed

section \<open>TryAdd of an Empty wrapper\<close>

text \<open>A wrapper that holds the nil interface digests as \<^verbatim>\<open>null\<close>: it is neither an array nor an object, and encodes so.\<close>

lemma Digest_of_nil_node: "DigestJSONForEqual \<lparr>jvalue = Some INil\<rparr> = Inr ''null''"
  by (subst DigestJSONForEqual.simps)
     (simp add: IsEmpty_def Array_def sj_Array_def Map_def sj_Map_def Encode_def sj_Encode_def)

text \<open>
  Claim C10. On a receiver that holds an array, \<^verbatim>\<open>TryAdd(v)\<close> with \<open>v\<close> a wrapper in the
  Empty state appends the nil interface: the receiver then holds the old elements followed
  by nil, its length has grown by one, and its last element digests as \<^verbatim>\<open>null\<close>.
\<close>

theorem TryAdd_Empty_wrapper_appends_null:
  assumes "jvalue j = Some (ISlice xs)" and "IsEmpty v"
  shows "\<exists>j'. TryAdd j (ArgJson (Some v)) = Inr j'
          \<and> jvalue j' = Some (ISlice (xs @ [INil]))
          \<and> ArrayLength j' = ArrayLength j + 1
          \<and> (\<exists>item. GetIndex j' (ArrayLength j' - 1) = Inr item
                \<and> DigestJSONForEqual item = Inr ''null'')"
proof -
  let ?j' = "j\<lparr>jvalue := Some (ISlice (xs @ [INil]))\<rparr>"
  have t: "TryAdd j (ArgJson (Some v)) = Inr ?j'"
    using assms by (simp add: TryAdd_def Array_def sj_Array_def SetPath_def sj_SetPath_def)
  have l: "ArrayLength ?j' = ArrayLength j + 1"
    using assms(1) by (simp add: ArrayLength_def Array_def sj_Array_def)
  have l': "ArrayLength ?j' - 1 = int (length xs)"
    by (simp add: ArrayLength_def Array_def sj_Array_def)
  have g: "GetIndex ?j' (ArrayLength ?j' - 1) = Inr \<lparr>jvalue = Some INil\<rparr>"
    unfolding l' by (simp add: GetIndex_def sj_GetIndex_def sj_Array_def FromNotEmptySimpleJson_def)
  show ?thesis
    using t l g Digest_of_nil_node by simp
qed

theorem TryAdd_Empty_wrapper_witness:
  "jvalue NewJSONArray = Some (ISlice []) \<and> IsEmpty NewEmpty
   \<and> (\<exists>j'. TryAdd NewJSONArray (ArgJson (Some NewEmpty)) = Inr j'
          \<and> jvalue j' = Some (ISlice [INil])
          \<and> ArrayLength j' = ArrayLength NewJSONArray + 1
          \<and> (\<exists>item. GetIndex j' (ArrayLength j' - 1) = Inr item
                \<and> DigestJSONForEqual item = Inr ''null''))"
proof -
  have a: "jvalue NewJSONArray = Some (ISlice [])"
    by (simp add: NewJSONArray_def sj_SetPath_def)
  have e: "IsEmpty NewEmpty" by (simp add: IsEmpty_def NewEmpty_def)
  show ?thesis
    using a e TryAdd_Empty_wrapper_appends_null [OF a e] by simp
qed

section \<open>GetKeyValuesIfAllContains\<close>

text \<open>
  The loop either meets a key that the receiver does not have and returns the empty
  object, or stores one entry for each key into \<open>result\<close>.
\<close>

lemma fold_sj_Set:
  "fold (\<lambda>k r. sj_Set r k (f k)) keys (IMap m0) = IMap (fold (\<lambda>k. AList.update k (f k)) keys m0)"
  by (induction keys arbitrary: m0) (simp_all add: sj_Set_def sj_Map_def)

lemma map_of_fold_update:
  "map_of (fold (\<lambda>k. AList.update k (f k)) keys m0) k =
     (if k \<in> set keys then Some (f k) else map_of m0 k)"
  by (induction keys arbitrary: m0) (auto simp: update_conv')

lemma distinct_fold_update:
  "distinct (map fst m0) \<Longrightarrow> distinct (map fst (fold (\<lambda>k. AList.update k (f k)) keys m0))"
  by (induction keys arbitrary: m0) (simp_all add: distinct_update)

lemma keys_fold_update:
  "fst ` set (fold (\<lambda>k. AList.update k (f k)) keys m0) = fst ` set m0 \<union> set keys"
proof -
  have "dom (map_of (fold (\<lambda>k. AList.update k (f k)) keys m0)) = dom (map_of m0) \<union> set keys"
    by (auto simp: map_of_fold_update dom_def)
  then show ?thesis by (simp add: dom_map_of_conv_image_fst)
qed

lemma GetKeyValuesIfAllContains_loop_fold:
  "GetKeyValuesIfAllContains_loop d keys result e =
     (if \<forall>k\<in>set keys. snd (sj_CheckGet d k)
      then FromNotEmptySimpleJson
             (Some (fold (\<lambda>k r. sj_Set r k (INode (fst (sj_CheckGet d k)))) keys result))
      else FromNotEmptySimpleJson (Some e))"
  by (induction keys arbitrary: result) (auto split: prod.splits)

lemma sj_CheckGet_cases:
  "sj_CheckGet d k = (None, False) \<or> (\<exists>v. sj_CheckGet d k = (Some v, True))"
  by (simp add: sj_CheckGet_def split: sum.splits option.splits)

lemma ContainsKey_holding:
  "jvalue j = Some d \<Longrightarrow> ContainsKey j k = snd (sj_CheckGet d k)"
  using sj_CheckGet_cases [of d k]
  by (auto simp: ContainsKey_def IsEmpty_def CheckGet_def NewEmpty_def FromNotEmptySimpleJson_def)

lemma ContainsKey_IMap:
  "ContainsKey \<lparr>jvalue = Some (IMap m)\<rparr> k = (k \<in> fst ` set m)"
  by (auto simp: ContainsKey_holding sj_CheckGet_def sj_Map_def map_of_eq_None_iff
        split: option.splits dest: map_of_SomeD intro: rev_image_eqI)

text \<open>
  Claim C6, as the code has it. An Empty receiver is returned as it is. For a receiver
  that is not Empty: when it contains every requested key, the result holds an object whose
  keys are exactly the requested ones; otherwise the result is the empty object, which is
  not the Empty state and contains no key.
\<close>

theorem GetKeyValuesIfAllContains_result:
  "(IsEmpty val \<longrightarrow> GetKeyValuesIfAllContains val keys = val)
   \<and> (\<not> IsEmpty val \<and> (\<forall>k\<in>set keys. ContainsKey val k) \<longrightarrow>
        (\<exists>m'. GetKeyValuesIfAllContains val keys = \<lparr>jvalue = Some (IMap m')\<rparr>
           \<and> distinct (map fst m') \<and> fst ` set m' = set keys)
        \<and> (\<forall>k. ContainsKey (GetKeyValuesIfAllContains val keys) k = (k \<in> set keys)))
   \<and> (\<not> IsEmpty val \<and> \<not> (\<forall>k\<in>set keys. ContainsKey val k) \<longrightarrow>
        GetKeyValuesIfAllContains val keys = NewJSONObject
        \<and> \<not> IsEmpty (GetKeyValuesIfAllContains val keys)
        \<and> (\<forall>k. \<not> ContainsKey (GetKeyValuesIfAllContains val keys) k))"
proof (cases "jvalue val")
  case None
  then show ?thesis by (simp add: IsEmpty_def GetKeyValuesIfAllContains_def)
next
  case (Some d)
  let ?f = "\<lambda>k. INode (fst (sj_CheckGet d k))"
  let ?m' = "fold (\<lambda>k. AList.update k (?f k)) keys []"
  have ne: "\<not> IsEmpty val" using Some by (simp add: IsEmpty_def)
  have ck: "\<And>k. ContainsKey val k = snd (sj_CheckGet d k)"
    using Some by (rule ContainsKey_holding)
  show ?thesis
  proof (cases "\<forall>k\<in>set keys. ContainsKey val k")
    case True
    have r: "GetKeyValuesIfAllContains val keys = \<lparr>jvalue = Some (IMap ?m')\<rparr>"
      using Some True
      by (simp add: GetKeyValuesIfAllContains_def GetKeyValuesIfAllContains_loop_fold ck
            sj_New_def fold_sj_Set FromNotEmptySimpleJson_def)
    have d: "distinct (map fst ?m')" by (simp add: distinct_fold_update)
    have k: "fst ` set ?m' = set keys" by (simp add: keys_fold_update)
    have c: "\<forall>k. ContainsKey \<lparr>jvalue = Some (IMap ?m')\<rparr> k = (k \<in> set keys)"
      by (simp add: ContainsKey_IMap k)
    show ?thesis using ne True r d k c by simp
  next
    case False
    from False have "\<not> (\<forall>k\<in>set keys. snd (sj_CheckGet d k))" by (simp add: ck)
    then have r: "GetKeyValuesIfAllContains val keys = NewJSONObject"
      using Some
      by (auto simp: GetKeyValuesIfAllContains_def GetKeyValuesIfAllContains_loop_fold
            NewJSONObject_def FromNotEmptySimpleJson_def)
    have "\<not> IsEmpty NewJSONObject" by (simp add: IsEmpty_def NewJSONObject_def)
    moreover have "\<forall>k. \<not> ContainsKey NewJSONObject k"
      by (simp add: NewJSONObject_def sj_New_def ContainsKey_IMap)
    ultimately show ?thesis using ne False r by auto
  qed
qed

theorem GetKeyValuesIfAllContains_witness:
  "IsEmpty NewEmpty \<and> GetKeyValuesIfAllContains NewEmpty [''times''] = NewEmpty
   \<and> \<not> IsEmpty \<lparr>jvalue = Some (IMap [(''hello'', IString ''world''), (''times'', INumber ''123'')])\<rparr>
   \<and> ContainsKey \<lparr>jvalue = Some (IMap [(''hello'', IString ''world''), (''times'', INumber ''123'')])\<rparr>
         ''times''
   \<and> ContainsKey \<lparr>jvalue = Some (IMap [(''hello'', IString ''world''), (''times'', INumber ''123'')])\<rparr>
         ''hello''
   \<and> ContainsKey (GetKeyValuesIfAllContains
         \<lparr>jvalue = Some (IMap [(''hello'', IString ''world''), (''times'', INumber ''123'')])\<rparr>
         [''times'', ''hello'']) ''times''
   \<and> ContainsKey (GetKeyValuesIfAllContains
         \<lparr>jvalue = Some (IMap [(''hello'', IString ''world''), (''times'', INumber ''123'')])\<rparr>
         [''times'', ''hello'']) ''hello''
   \<and> \<not> ContainsKey (GetKeyValuesIfAllContains
         \<lparr>jvalue = Some (IMap [(''hello'', IString ''world''), (''times'', INumber ''123'')])\<rparr>
         [''times'', ''hello'']) ''age''
   \<and> \<not> ContainsKey \<lparr>jvalue = Some (IMap [(''hello'', IString ''world''), (''times'', INumber ''123'')])\<rparr>
         ''age''
   \<and> GetKeyValuesIfAllContains
        \<lparr>jvalue = Some (IMap [(''hello'', IString ''world''), (''times'', INumber ''123'')])\<rparr>
        [''times'', ''age''] = NewJSONObject"
proof -
  let ?a = "\<lparr>jvalue = Some (IMap [(''hello'', IString ''world''), (''times'', INumber ''123'')])\<rparr>"
  have e: "IsEmpty NewEmpty" by (simp add: IsEmpty_def NewEmpty_def)
  have ne: "\<not> IsEmpty ?a" by (simp add: IsEmpty_def)
  have c: "ContainsKey ?a ''times''" "ContainsKey ?a ''hello''" "\<not> ContainsKey ?a ''age''"
    by (simp_all add: ContainsKey_IMap)
  show ?thesis
    using e ne c
      GetKeyValuesIfAllContains_result [of NewEmpty "[''times'']"]
      GetKeyValuesIfAllContains_result [of ?a "[''times'', ''hello'']"]
      GetKeyValuesIfAllContains_result [of ?a "[''times'', ''age'']"]
    by simp
qed

text \<open>
  Claim C6 as stated, for every receiver, fails on the Empty one: what comes back is the
  Empty state.
\<close>

theorem GetKeyValuesIfAllContains_Empty_counterexample:
  "IsEmpty (GetKeyValuesIfAllContains NewEmpty [''times'', ''hello''])"
  by (simp add: GetKeyValuesIfAllContains_def NewEmpty_def IsEmpty_def)

text \<open>
  The loop stores each entry with the library's \<^verbatim>\<open>Set\<close>, and what it stores is the node
  that \<^verbatim>\<open>CheckGet\<close> returned, where betterjson's own \<^verbatim>\<open>Set\<close> stores the value that a
  wrapper holds. \<^verbatim>\<open>Get\<close> on the result therefore wraps a node and not the receiver's
  value: it encodes to the same text, and \<^verbatim>\<open>MustString\<close> on it is the empty string.
\<close>

lemma GetKeyValuesIfAllContains_entry_is_node:
  "Get (GetKeyValuesIfAllContains \<lparr>jvalue = Some (IMap [(''hello'', IString ''world'')])\<rparr> [''hello''])
       ''hello''
     = Inr \<lparr>jvalue = Some (INode (Some (IString ''world'')))\<rparr>
   \<and> MustString \<lparr>jvalue = Some (INode (Some (IString ''world'')))\<rparr> [] = Inr []
   \<and> Encode \<lparr>jvalue = Some (INode (Some (IString ''world'')))\<rparr>
       = Encode \<lparr>jvalue = Some (IString ''world'')\<rparr>
   \<and> Get \<lparr>jvalue = Some (IMap [(''hello'', IString ''world'')])\<rparr> ''hello''
     = Inr \<lparr>jvalue = Some (IString ''world'')\<rparr>
   \<and> MustString \<lparr>jvalue = Some (IString ''world'')\<rparr> [] = Inr ''world''"
  by (simp add: GetKeyValuesIfAllContains_def IsEmpty_def sj_New_def sj_CheckGet_def sj_Map_def
        sj_Set_def sj_Get_def Get_def FromNotEmptySimpleJson_def MustString_def sj_Must_def
        sj_String_def Encode_def sj_Encode_def)

section \<open>The digest as a function of the held value\<close>

text \<open>
  \<^verbatim>\<open>DigestJSONForEqual\<close> returns \<open>digest_of\<close> of the value that the receiver holds
  (\<open>Digest_eq\<close>); in particular it never panics.
\<close>

lemma fold_buffer:
  assumes "\<And>x b. x \<in> set xs \<Longrightarrow> step x (Inr b) = Inr (b @ g x)"
  shows "fold step xs (Inr acc) = Inr (acc @ concat (map g xs))"
  using assms by (induction xs arbitrary: acc) simp_all

lemma join_comma_snoc:
  "join_comma (ps @ [p]) = (if ps = [] then p else join_comma ps @ '','' @ p)"
  by (induction ps rule: join_comma.induct) simp_all

lemma concat_sep_join:
  "concat (map (\<lambda>i. (if i > 0 then '','' else []) @ h i) [0..<n]) = join_comma (map h [0..<n])"
proof (induction n)
  case 0
  show ?case by simp
next
  case (Suc n)
  have l: "concat (map (\<lambda>i. (if i > 0 then '','' else []) @ h i) [0..<Suc n])
           = join_comma (map h [0..<n]) @ (if n > 0 then '','' else []) @ h n"
    using Suc by simp
  have r: "join_comma (map h [0..<Suc n])
           = (if map h [0..<n] = [] then h n else join_comma (map h [0..<n]) @ '','' @ h n)"
    using join_comma_snoc [of "map h [0..<n]" "h n"] by simp
  show ?case
  proof (cases "n = 0")
    case True
    then show ?thesis by simp
  next
    case False
    then have "map h [0..<n] \<noteq> []" by simp
    with False show ?thesis unfolding l r by simp
  qed
qed

lemma zip_upt_nth: "zip [0..<length xs] xs = map (\<lambda>i. (i, xs ! i)) [0..<length xs]"
  by (rule nth_equalityI) simp_all

lemma map_nth_upt: "map (\<lambda>i. f (xs ! i)) [0..<length xs] = map f xs"
  by (rule nth_equalityI) simp_all

lemma map_of_map_digest:
  "map_of (map (\<lambda>(k, v). (k, f v)) m) key = map_option f (map_of m key)"
  by (induction m) auto

lemma Digest_holding:
  "DigestJSONForEqual \<lparr>jvalue = Some d\<rparr> = Inr (digest_of d)"
proof (induction d)
  case (ISlice a)
  let ?j = "\<lparr>jvalue = Some (ISlice a)\<rparr>"
  let ?step = "\<lambda>idx buf.
     case buf of
       Inl p \<Rightarrow> Inl p
     | Inr digestBuffer \<Rightarrow>
         (case GetIndex ?j (int idx) of
            Inl p \<Rightarrow> Inl p
          | Inr itemJson \<Rightarrow>
              (case DigestJSONForEqual itemJson of
                 Inl p \<Rightarrow> Inl p
               | Inr s \<Rightarrow> Inr (digestBuffer @ (if idx > 0 then '','' else []) @ s)))"
  have step: "?step idx (Inr b) = Inr (b @ (if idx > 0 then '','' else []) @ digest_of (a ! idx))"
    if "idx \<in> set [0..<length a]" for idx b
  proof -
    from that have lt: "idx < length a" by simp
    then have "GetIndex ?j (int idx) = Inr \<lparr>jvalue = Some (a ! idx)\<rparr>"
      by (simp add: GetIndex_def sj_GetIndex_def sj_Array_def FromNotEmptySimpleJson_def)
    moreover have "DigestJSONForEqual \<lparr>jvalue = Some (a ! idx)\<rparr> = Inr (digest_of (a ! idx))"
      using lt by (intro ISlice.IH) simp
    ultimately show ?thesis by simp
  qed
  have "fold ?step [0..<length a] (Inr ''['')
        = Inr (''['' @ concat (map (\<lambda>idx. (if idx > 0 then '','' else []) @ digest_of (a ! idx))
                                [0..<length a]))"
    by (rule fold_buffer) (rule step)
  also have "\<dots> = Inr (''['' @ join_comma (map digest_of a))"
    by (simp only: concat_sep_join) (simp add: map_nth_upt)
  finally have f: "fold ?step [0..<length a] (Inr ''['') = Inr (''['' @ join_comma (map digest_of a))" .
  show ?case
    by (subst DigestJSONForEqual.simps)
       (simp add: IsEmpty_def Array_def sj_Array_def f del: fold_simps)
next
  case (IMap m)
  let ?j = "\<lparr>jvalue = Some (IMap m)\<rparr>"
  let ?keys = "sort (map fst m)"
  let ?dg = "\<lambda>key. case map_of (map (\<lambda>(k, v). (k, digest_of v)) m) key of
                      Some s \<Rightarrow> s | None \<Rightarrow> ''null''"
  let ?step = "\<lambda>(idx, key) buf.
     case buf of
       Inl p \<Rightarrow> Inl p
     | Inr digestBuffer \<Rightarrow>
         (let digestBuffer = digestBuffer @ (if idx > 0 then '','' else [])
          in case json_Marshal (IString key) of
               Inl err \<Rightarrow>
                 Inr (digestBuffer @ CHR 0x22 # ''error'' @ CHR 0x22 # '':''
                        @ CHR 0x22 # ''error'' @ [CHR 0x22])
             | Inr keyEncode \<Rightarrow>
                 (case Get ?j key of
                    Inl p \<Rightarrow> Inl p
                  | Inr item \<Rightarrow>
                      (case DigestJSONForEqual item of
                         Inl p \<Rightarrow> Inl p
                       | Inr s \<Rightarrow> Inr (digestBuffer @ keyEncode @ '':'' @ s))))"
  let ?g = "\<lambda>(idx, key). (if idx > 0 then '','' else []) @ appendString key @ '':'' @ ?dg key"
  have step: "?step x (Inr b) = Inr (b @ ?g x)"
    if "x \<in> set (zip [0..<length ?keys] ?keys)" for x b
  proof -
    obtain idx key where x: "x = (idx, key)" by (cases x)
    with that have "key \<in> set ?keys" by (auto dest: set_zip_rightD)
    then obtain v where v: "(key, v) \<in> set m" by auto
    then obtain v' where v': "map_of m key = Some v'"
      by (metis weak_map_of_SomeI)
    then have "(key, v') \<in> set m" by (rule map_of_SomeD)
    then have "DigestJSONForEqual \<lparr>jvalue = Some v'\<rparr> = Inr (digest_of v')"
      by (rule IMap.IH) simp
    moreover have "Get ?j key = Inr \<lparr>jvalue = Some v'\<rparr>"
      by (simp add: Get_def sj_Get_def sj_Map_def v' FromNotEmptySimpleJson_def)
    moreover have "?dg key = digest_of v'"
      by (simp add: map_of_map_digest v')
    ultimately show ?thesis by (simp add: x)
  qed
  have "fold ?step (zip [0..<length ?keys] ?keys) (Inr ''{'')
        = Inr (''{'' @ concat (map ?g (zip [0..<length ?keys] ?keys)))"
    by (rule fold_buffer) (rule step)
  also have "concat (map ?g (zip [0..<length ?keys] ?keys))
             = concat (map (\<lambda>i. (if i > 0 then '','' else [])
                                   @ (appendString (?keys ! i) @ '':'' @ ?dg (?keys ! i)))
                         [0..<length ?keys])"
    by (simp only: zip_upt_nth map_map comp_def prod.case)
  also have "\<dots> = join_comma (map (\<lambda>i. appendString (?keys ! i) @ '':'' @ ?dg (?keys ! i))
                              [0..<length ?keys])"
    by (rule concat_sep_join)
  also have "\<dots> = join_comma (map (\<lambda>key. appendString key @ '':'' @ ?dg key) ?keys)"
    by (rule arg_cong [of _ _ join_comma]) (rule nth_equalityI, simp_all)
  finally have f: "fold ?step (zip [0..<length ?keys] ?keys) (Inr ''{'')
        = Inr (''{'' @ join_comma (map (\<lambda>key. appendString key @ '':'' @ ?dg key) ?keys))" .
  have u: "DigestJSONForEqual ?j =
             (case fold ?step (zip [0..<length ?keys] ?keys) (Inr ''{'') of
                Inl p \<Rightarrow> Inl p
              | Inr digestBuffer \<Rightarrow> Inr (digestBuffer @ ''}''))"
    by (subst DigestJSONForEqual.simps)
       (simp add: IsEmpty_def Array_def sj_Array_def Map_def sj_Map_def)
  show ?case unfolding u f by simp
qed (subst DigestJSONForEqual.simps,
     simp add: IsEmpty_def Array_def sj_Array_def Map_def sj_Map_def Encode_def sj_Encode_def
       split: sum.splits)+

lemma Digest_eq:
  "DigestJSONForEqual j = Inr (case jvalue j of None \<Rightarrow> ''nil'' | Some d \<Rightarrow> digest_of d)"
proof (cases "jvalue j")
  case None
  then show ?thesis by (subst DigestJSONForEqual.simps) (simp add: IsEmpty_def)
next
  case (Some d)
  then have "j = \<lparr>jvalue = Some d\<rparr>" by simp
  with Some Digest_holding [of d] show ?thesis by simp
qed

section \<open>IsSameJSONWith\<close>

text \<open>No held value digests to \<^verbatim>\<open>nil\<close>, the digest of the Empty state.\<close>

lemma isValidNumber_nil: "\<not> isValidNumber ''nil''"
  by (simp add: isValidNumber_def)

lemma json_Marshal_not_nil: "json_Marshal v = Inr s \<Longrightarrow> s \<noteq> ''nil''"
proof (induction v arbitrary: s)
  case (INumber n)
  then show ?case
    using isValidNumber_nil by (auto simp: Let_def split: if_splits)
next
  case (INode p)
  then show ?case by (cases p) auto
qed (auto simp: appendString_def split: sum.splits if_splits)

lemma digest_of_not_nil: "digest_of d \<noteq> ''nil''"
proof (cases d)
  case (INumber n)
  then show ?thesis
    using json_Marshal_not_nil [of "INumber n"] by (auto simp del: json_Marshal.simps split: sum.splits)
next
  case (INode p)
  then show ?thesis
    using json_Marshal_not_nil [of "INode p"] by (auto simp del: json_Marshal.simps split: sum.splits)
qed (auto simp: appendString_def)

text \<open>
  Claim C5. \<^verbatim>\<open>IsSameJSONWith\<close> is reflexive and symmetric, a nil \<open>other\<close> is treated as
  an Empty wrapper, and the result is true exactly when both sides are Empty (or nil), or
  \<open>other\<close> is there and the two digests are the same string. It never panics.
\<close>

theorem IsSameJSONWith_equivalence:
  "IsSameJSONWith j (Some j) = Inr True
   \<and> IsSameJSONWith a (Some b) = IsSameJSONWith b (Some a)
   \<and> IsSameJSONWith a None = IsSameJSONWith a (Some NewEmpty)
   \<and> IsSameJSONWith a other =
       Inr ((IsEmpty a \<and> (other = None \<or> IsEmpty (the other)))
            \<or> (other \<noteq> None \<and> DigestJSONForEqual a = DigestJSONForEqual (the other)))"
proof -
  have ne: "IsEmpty NewEmpty" by (simp add: IsEmpty_def NewEmpty_def)
  have r: "IsSameJSONWith j (Some j) = Inr True" for j
    by (simp add: IsSameJSONWith_def Digest_eq)
  have s: "IsSameJSONWith a (Some b) = IsSameJSONWith b (Some a)" for a b
    by (auto simp: IsSameJSONWith_def Digest_eq IsEmpty_def digest_of_not_nil
          digest_of_not_nil [THEN not_sym] split: option.splits)
  have n: "IsSameJSONWith a None = IsSameJSONWith a (Some NewEmpty)" for a
    by (simp add: IsSameJSONWith_def ne)
  have c: "IsSameJSONWith a other =
       Inr ((IsEmpty a \<and> (other = None \<or> IsEmpty (the other)))
            \<or> (other \<noteq> None \<and> DigestJSONForEqual a = DigestJSONForEqual (the other)))" for a other
    by (cases other)
       (auto simp: IsSameJSONWith_def Digest_eq IsEmpty_def digest_of_not_nil
          digest_of_not_nil [THEN not_sym] split: option.splits)
  show ?thesis using r s n c by blast
qed

theorem IsSameJSONWith_witness:
  "IsSameJSONWith \<lparr>jvalue = Some (IString ''a'')\<rparr> (Some \<lparr>jvalue = Some (IString ''a'')\<rparr>) = Inr True
   \<and> IsSameJSONWith \<lparr>jvalue = Some (IString ''a'')\<rparr> (Some NewEmpty)
       = IsSameJSONWith NewEmpty (Some \<lparr>jvalue = Some (IString ''a'')\<rparr>)
   \<and> IsSameJSONWith \<lparr>jvalue = Some (IString ''a'')\<rparr> None
       = IsSameJSONWith \<lparr>jvalue = Some (IString ''a'')\<rparr> (Some NewEmpty)
   \<and> IsSameJSONWith NewEmpty None = Inr True"
proof -
  have e: "IsEmpty NewEmpty" by (simp add: IsEmpty_def NewEmpty_def)
  show ?thesis
    using e
      IsSameJSONWith_equivalence
        [of "\<lparr>jvalue = Some (IString ''a'')\<rparr>" "\<lparr>jvalue = Some (IString ''a'')\<rparr>" NewEmpty None]
      IsSameJSONWith_equivalence [of NewEmpty NewEmpty NewEmpty None]
    by simp
qed

section \<open>Valid number literals\<close>

text \<open>
  What \<^verbatim>\<open>isValidNumber\<close> accepts is not empty, is made of digits, signs, the point and
  the exponent letter only, and starts with a minus sign or a digit.
\<close>

lemma set_dropWhile_digits: "c \<in> set xs \<Longrightarrow> num_char c \<or> c \<in> set (dropWhile is_digit xs)"
  by (induction xs) (auto simp: num_char_def)

lemma set_hd_tl: "xs \<noteq> [] \<Longrightarrow> c \<in> set xs \<Longrightarrow> c = hd xs \<or> c \<in> set (tl xs)"
  by (cases xs) auto

lemma set_drop2: "2 \<le> length xs \<Longrightarrow> c \<in> set xs \<Longrightarrow> c = hd xs \<or> c = xs ! 1 \<or> c \<in> set (drop 2 xs)"
  by (cases xs; cases "tl xs") auto

lemma isValidNumber_chars:
  assumes "isValidNumber n"
  shows "n \<noteq> [] \<and> (\<forall>c\<in>set n. num_char c) \<and> (hd n = CHR ''-'' \<or> is_digit (hd n))"
proof -
  define s1 where "s1 = (if hd n = CHR ''-'' then tl n else n)"
  define s2 where "s2 = (if hd s1 = CHR ''0'' then tl s1 else dropWhile is_digit (tl s1))"
  define s3 where "s3 = (if 2 \<le> length s2 \<and> hd s2 = CHR ''.'' \<and> is_digit (s2 ! 1)
                   then dropWhile is_digit (drop 2 s2) else s2)"
  define s4 where "s4 = tl s3"
  define signed where "signed = (hd s4 = CHR ''+'' \<or> hd s4 = CHR ''-'')"
  define s5 where "s5 = (if signed then tl s4 else s4)"
  from assms have n: "n \<noteq> []" and s1: "s1 \<noteq> []"
    and d1: "hd s1 = CHR ''0'' \<or> (CHR ''1'' \<le> hd s1 \<and> hd s1 \<le> CHR ''9'')"
    and fin: "if 2 \<le> length s3 \<and> (hd s3 = CHR ''e'' \<or> hd s3 = CHR ''E'')
              then \<not> (signed \<and> s5 = []) \<and> dropWhile is_digit s5 = [] else s3 = []"
    unfolding isValidNumber_def s1_def [symmetric] Let_def s2_def [symmetric] s3_def [symmetric]
      s4_def [symmetric] signed_def [symmetric] s5_def [symmetric]
    by (auto split: if_splits)
  have hd1: "is_digit (hd s1)" using d1 by (auto simp: is_digit_def less_eq_char_def)
  have c3: "num_char c" if "c \<in> set s3" for c
  proof (cases "2 \<le> length s3 \<and> (hd s3 = CHR ''e'' \<or> hd s3 = CHR ''E'')")
    case True
    with fin have z: "dropWhile is_digit s5 = []" by simp
    from True have ne3: "s3 \<noteq> []" by auto
    from set_hd_tl [OF ne3 that] show ?thesis
    proof
      assume "c = hd s3" with True show ?thesis by (auto simp: num_char_def)
    next
      assume c4: "c \<in> set (tl s3)"
      then have ne4: "s4 \<noteq> []" and c4': "c \<in> set s4" by (auto simp: s4_def)
      have "c = hd s4 \<and> signed \<or> c \<in> set s5"
        using set_hd_tl [OF ne4 c4'] c4' by (auto simp: s5_def)
      then show ?thesis
      proof
        assume "c = hd s4 \<and> signed" then show ?thesis by (auto simp: signed_def num_char_def)
      next
        assume "c \<in> set s5"
        from set_dropWhile_digits [OF this] z show ?thesis by simp
      qed
    qed
  next
    case False
    with fin that show ?thesis by simp
  qed
  have c2: "num_char c" if "c \<in> set s2" for c
  proof (cases "2 \<le> length s2 \<and> hd s2 = CHR ''.'' \<and> is_digit (s2 ! 1)")
    case True
    then have s3': "s3 = dropWhile is_digit (drop 2 s2)" by (simp add: s3_def)
    from True have "2 \<le> length s2" by simp
    from set_drop2 [OF this that] show ?thesis
      using True set_dropWhile_digits [of c "drop 2 s2"] c3 s3'
      by (auto simp: num_char_def)
  next
    case False
    then have "s3 = s2" by (auto simp: s3_def)
    with that c3 show ?thesis by simp
  qed
  have c1: "num_char c" if "c \<in> set s1" for c
  proof -
    from set_hd_tl [OF s1 that] show ?thesis
    proof
      assume "c = hd s1" with hd1 show ?thesis by (simp add: num_char_def)
    next
      assume t: "c \<in> set (tl s1)"
      show ?thesis
      proof (cases "hd s1 = CHR ''0''")
        case True
        with t c2 show ?thesis by (simp add: s2_def)
      next
        case False
        with set_dropWhile_digits [OF t] c2 show ?thesis by (auto simp: s2_def)
      qed
    qed
  qed
  have c0: "num_char c" if "c \<in> set n" for c
  proof (cases "hd n = CHR ''-''")
    case True
    from set_hd_tl [OF n that] show ?thesis
    proof
      assume "c = hd n" with True show ?thesis by (simp add: num_char_def)
    next
      assume "c \<in> set (tl n)" with True c1 show ?thesis by (simp add: s1_def)
    qed
  next
    case False
    with that c1 show ?thesis by (simp add: s1_def)
  qed
  have "hd n = CHR ''-'' \<or> is_digit (hd n)"
    using hd1 by (auto simp: s1_def split: if_splits)
  with n c0 show ?thesis by blast
qed

section \<open>The string encoder can be read back\<close>

text \<open>
  On valid strings \<^verbatim>\<open>appendString\<close> loses nothing: \<open>unquote\<close> reads its output back,
  whatever text follows the closing quote.
\<close>

lemma pre_pre: "pre xs (pre ys p) = pre (xs @ ys) p"
  by (cases p) (auto simp: pre_def)

lemma unquote_literal:
  "\<forall>c\<in>set xs. c \<noteq> CHR 0x22 \<and> c \<noteq> CHR 0x5C \<Longrightarrow> unquote (xs @ r) = pre xs (unquote r)"
proof (induction xs)
  case Nil
  show ?case by (cases "unquote r") (auto simp: pre_def)
next
  case (Cons x xs)
  then show ?case by (simp add: pre_pre)
qed

lemma unhex_hex_all: "\<forall>n\<in>set [0..<16]. unhex (hex n) = n"
  by code_simp

lemma unhex_hex: "n < 16 \<Longrightarrow> unhex (hex n) = n"
  using unhex_hex_all by simp

lemma unquote_ascii:
  assumes "(of_char c :: nat) < 0x80"
  shows "\<exists>t. appendString_loop (c # cs) = t @ appendString_loop cs
           \<and> (\<forall>r. unquote (t @ r) = pre [c] (unquote r))"
proof -
  let ?b = "of_char c :: nat"
  consider (safe) "htmlSafeSet c"
    | (quote) "\<not> htmlSafeSet c" "c = CHR 0x5C \<or> c = CHR 0x22"
    | (short) "\<not> htmlSafeSet c" "c = CHR 0x08 \<or> c = CHR 0x0C \<or> c = CHR 0x0A \<or> c = CHR 0x0D \<or> c = CHR 0x09"
    | (other) "\<not> htmlSafeSet c" "c \<noteq> CHR 0x5C" "c \<noteq> CHR 0x22" "c \<noteq> CHR 0x08" "c \<noteq> CHR 0x0C"
        "c \<noteq> CHR 0x0A" "c \<noteq> CHR 0x0D" "c \<noteq> CHR 0x09"
    by blast
  then show ?thesis
  proof cases
    case safe
    then have "appendString_loop (c # cs) = [c] @ appendString_loop cs"
      using assms by simp
    moreover have "\<forall>r. unquote ([c] @ r) = pre [c] (unquote r)"
      using safe by (simp add: htmlSafeSet_def)
    ultimately show ?thesis by blast
  next
    case quote
    then have "appendString_loop (c # cs) = [CHR 0x5C, c] @ appendString_loop cs"
      using assms by auto
    moreover have "\<forall>r. unquote ([CHR 0x5C, c] @ r) = pre [c] (unquote r)"
      using quote by (auto simp: unescape_char_def)
    ultimately show ?thesis by blast
  next
    case short
    then have "appendString_loop (c # cs)
        = [CHR 0x5C, if c = CHR 0x08 then CHR ''b'' else if c = CHR 0x0C then CHR ''f''
             else if c = CHR 0x0A then CHR ''n'' else if c = CHR 0x0D then CHR ''r'' else CHR ''t'']
          @ appendString_loop cs"
      using assms by auto
    moreover have "\<forall>r. unquote ([CHR 0x5C, if c = CHR 0x08 then CHR ''b'' else if c = CHR 0x0C then CHR ''f''
             else if c = CHR 0x0A then CHR ''n'' else if c = CHR 0x0D then CHR ''r'' else CHR ''t''] @ r)
           = pre [c] (unquote r)"
      using short by (auto simp: unescape_char_def)
    ultimately show ?thesis by blast
  next
    case other
    let ?t = "[CHR 0x5C, CHR ''u'', CHR ''0'', CHR ''0'', hex (?b div 16), hex (?b mod 16)]"
    have "appendString_loop (c # cs) = ?t @ appendString_loop cs"
      using assms other by (simp add: Let_def)
    moreover have "\<forall>r. unquote (?t @ r) = pre [c] (unquote r)"
    proof -
      have "?b div 16 < 16" using assms by simp
      then have "unhex (hex (?b div 16)) * 16 + unhex (hex (?b mod 16)) = ?b"
        by (simp add: unhex_hex)
      then show ?thesis by (simp add: unescape_unicode_def)
    qed
    ultimately show ?thesis by blast
  qed
qed

lemma decode_multi_width:
  assumes "0x80 \<le> s0" and "DecodeRuneInString (s0 # s) = (r, w)" and "\<not> (r = RuneError \<and> w = 1)"
  shows "2 \<le> w \<and> w - 1 \<le> length s \<and> (\<forall>i < w - 1. 0x80 \<le> s ! i)"
  using assms
  by (simp add: Let_def split: if_splits)
     (auto simp: less_Suc_eq numeral_3_eq_3 numeral_2_eq_2 Suc_le_eq)

text \<open>Arithmetic on the bytes of a rune.\<close>

lemma mod_offset:
  fixes a q m k :: nat
  assumes "a = q * m + k" and "k < m"
  shows "a mod m = k"
  using assms by simp

lemma mod64_byte:
  fixes a :: nat
  assumes "128 \<le> a" "a \<le> 191"
  shows "a mod 64 = a - 128"
proof (rule mod_offset [of a 2])
  show "a = 2 * 64 + (a - 128)" using assms by linarith
  show "a - 128 < 64" using assms by linarith
qed

lemma mod16_byte:
  fixes a :: nat
  assumes "224 \<le> a" "a < 240"
  shows "a mod 16 = a - 224"
proof (rule mod_offset [of a 14])
  show "a = 14 * 16 + (a - 224)" using assms by linarith
  show "a - 224 < 16" using assms by linarith
qed

lemma mod8_byte:
  fixes a :: nat
  assumes "240 \<le> a" "a < 248"
  shows "a mod 8 = a - 240"
proof (rule mod_offset [of a 30])
  show "a = 30 * 8 + (a - 240)" using assms by linarith
  show "a - 240 < 8" using assms by linarith
qed

lemma rune2_small:
  fixes s0 a :: nat
  shows "s0 mod 32 * 64 + a mod 64 < 0x2028"
proof -
  have "x * 64 + y < 0x2028" if "x < 32" "y < 64" for x y :: nat
    using that by linarith
  then show ?thesis by simp
qed

lemma rune3_E0:
  fixes a b :: nat
  shows "a mod 64 * 64 + b mod 64 < 0x2028"
proof -
  have "x * 64 + y < 0x2028" if "x < 64" "y < 64" for x y :: nat
    using that by linarith
  then show ?thesis by simp
qed

lemma rune3_2028:
  fixes s0 a b r :: nat
  assumes "224 \<le> s0" "s0 < 240" "128 \<le> a" "a \<le> 191" "128 \<le> b" "b \<le> 191"
    and "s0 mod 16 * 4096 + a mod 64 * 64 + b mod 64 = r" and "r = 0x2028 \<or> r = 0x2029"
  shows "s0 = 226 \<and> a = 128 \<and> b = 128 + r mod 64"
proof -
  define x y z where "x = s0 - 224" and "y = a - 128" and "z = b - 128"
  have s: "s0 = 224 + x" "a = 128 + y" "b = 128 + z" and bd: "x < 16" "y < 64" "z < 64"
    using assms(1-6) by (simp_all add: x_def y_def z_def)
  have m: "s0 mod 16 = x" "a mod 64 = y" "b mod 64 = z"
    using assms(1-6) by (simp_all add: mod16_byte mod64_byte x_def y_def z_def)
  have e: "x * 4096 + y * 64 + z = r" using assms(7) by (simp only: m)
  have x: "x = 2" using e bd assms(8) by linarith
  have y: "y = 0" using e bd assms(8) x by linarith
  have z: "z = r - 8192" using e x y by simp
  have "r mod 64 = r - 8192"
    using assms(8) by (intro mod_offset [of r 128]) auto
  then show ?thesis using x y z assms(8) by (auto simp: s)
qed

lemma rune4_F0:
  fixes a b c :: nat
  assumes "144 \<le> a" "a \<le> 191"
  shows "0x2029 < a mod 64 * 4096 + b mod 64 * 64 + c mod 64"
proof -
  have "a mod 64 = a - 128" using assms by (simp add: mod64_byte)
  then have "16 \<le> a mod 64" using assms by linarith
  then have "16 * 4096 \<le> a mod 64 * 4096" by (rule mult_le_mono1)
  then show ?thesis by linarith
qed

lemma rune4_large:
  fixes s0 a b c :: nat
  assumes "240 < s0" "s0 \<le> 244"
  shows "0x2029 < s0 mod 8 * 262144 + a mod 64 * 4096 + b mod 64 * 64 + c mod 64"
proof -
  have "s0 mod 8 = s0 - 240" using assms by (simp add: mod8_byte)
  then have "1 \<le> s0 mod 8" using assms by linarith
  then have "1 * 262144 \<le> s0 mod 8 * 262144" by (rule mult_le_mono1)
  then show ?thesis by linarith
qed

lemma decode_multi_2028:
  assumes "0x80 \<le> s0" and "DecodeRuneInString (s0 # s) = (r, w)" and "r = 0x2028 \<or> r = 0x2029"
  shows "w = 3 \<and> s0 = 0xE2 \<and> s ! 0 = 0x80 \<and> s ! 1 = 0x80 + r mod 0x40"
  using assms
  apply (simp add: Let_def RuneError_def split: if_splits)
  subgoal using rune2_small [of s0 "s ! 0"] by auto
  subgoal using rune3_E0 [of "s ! 0" "s ! Suc 0"] by auto
  subgoal using rune3_2028 [of s0 "s ! 0" "s ! Suc 0" r] by auto
  subgoal using rune4_F0 [of "s ! 0" "s ! Suc 0" "s ! 2"] by auto
  subgoal using rune4_large [of s0 "s ! 0" "s ! Suc 0" "s ! 2"] by auto
  done

lemma of_char_eq_iff: "(of_char c :: nat) = of_char d \<longleftrightarrow> c = d"
  by (metis char_of_char)

lemma high_byte_literal:
  "0x80 \<le> (of_char c :: nat) \<Longrightarrow> c \<noteq> CHR 0x22 \<and> c \<noteq> CHR 0x5C"
  by auto

lemma ValidString_ascii:
  "(of_char c :: nat) < 0x80 \<Longrightarrow> ValidString (c # cs) \<Longrightarrow> ValidString cs"
  by simp

lemma unquote_multi:
  assumes nb: "\<not> (of_char c :: nat) < 0x80" and v: "ValidString (c # cs)"
  shows "\<exists>t w. appendString_loop (c # cs) = t @ appendString_loop (drop w cs)
           \<and> (\<forall>r. unquote (t @ r) = pre (c # take w cs) (unquote r))
           \<and> ValidString (drop w cs)"
proof -
  let ?bs = "map of_char (take 3 cs) :: nat list"
  obtain r width where d: "DecodeRuneInString (of_char c # ?bs) = (r, width)"
    by (cases "DecodeRuneInString (of_char c # ?bs)")
  from v d have ok: "\<not> (r = RuneError \<and> width = 1)" and v': "ValidString (drop (width - 1) cs)"
    by simp_all
  from nb have hi: "0x80 \<le> (of_char c :: nat)" by simp
  from decode_multi_width [OF hi d ok]
  have w2: "2 \<le> width" and wl: "width - 1 \<le> length ?bs"
    and cont: "\<forall>i < width - 1. 0x80 \<le> ?bs ! i" by auto
  have wl': "width - 1 \<le> length cs" using wl by simp
  have lit: "\<forall>x\<in>set (c # take (width - 1) cs). x \<noteq> CHR 0x22 \<and> x \<noteq> CHR 0x5C"
  proof
    fix x assume "x \<in> set (c # take (width - 1) cs)"
    then consider "x = c" | i where "i < width - 1" "x = cs ! i"
      using wl' by (auto simp: in_set_conv_nth)
    then show "x \<noteq> CHR 0x22 \<and> x \<noteq> CHR 0x5C"
    proof cases
      case 1
      with hi show ?thesis using high_byte_literal by blast
    next
      case 2
      then have "?bs ! i = of_char x" using wl by simp
      with cont 2 have "0x80 \<le> (of_char x :: nat)" by metis
      then show ?thesis using high_byte_literal by blast
    qed
  qed
  show ?thesis
  proof (cases "r = 0x2028 \<or> r = 0x2029")
    case True
    from decode_multi_2028 [OF hi d True]
    have w: "width = 3" and b0: "(of_char c :: nat) = 0xE2" and b1: "?bs ! 0 = 0x80"
      and b2: "?bs ! 1 = 0x80 + r mod 0x40" by auto
    from wl' w obtain c1 c2 rest where cs: "cs = c1 # c2 # rest"
      by (cases cs; cases "tl cs") auto
    have c: "c = CHR 0xE2" using b0 of_char_eq_iff [of c "CHR 0xE2"] by simp
    have c1: "c1 = CHR 0x80" using b1 of_char_eq_iff [of c1 "CHR 0x80"] by (simp add: cs)
    have c2: "c2 = (if r = 0x2028 then CHR 0xA8 else CHR 0xA9)"
      using b2 True of_char_eq_iff [of c2 "CHR 0xA8"] of_char_eq_iff [of c2 "CHR 0xA9"]
      by (auto simp: cs)
    let ?t = "CHR 0x5C # ''u202'' @ [hex (r mod 16)]"
    have "appendString_loop (c # cs) = ?t @ appendString_loop (drop 2 cs)"
      using nb d True w by (simp add: RuneError_def)
    moreover have "\<forall>q. unquote (?t @ q) = pre (c # take 2 cs) (unquote q)"
      using True by (auto simp: unescape_unicode_def hex_def cs c c1 c2)
    ultimately show ?thesis using v' w by (intro exI [of _ ?t] exI [of _ 2]) simp
  next
    case False
    let ?t = "c # take (width - 1) cs"
    have "appendString_loop (c # cs) = ?t @ appendString_loop (drop (width - 1) cs)"
      using nb d ok False by simp
    moreover have "\<forall>q. unquote (?t @ q) = pre ?t (unquote q)"
      using unquote_literal [OF lit] by blast
    ultimately show ?thesis using v' by blast
  qed
qed

lemma unquote_appendString_loop:
  "ValidString s \<Longrightarrow> unquote (appendString_loop s @ CHR 0x22 # r) = Some (s, r)"
proof (induction s rule: length_induct)
  case (1 s)
  show ?case
  proof (cases s)
    case Nil
    then show ?thesis by simp
  next
    case (Cons c cs)
    show ?thesis
    proof (cases "(of_char c :: nat) < 0x80")
      case True
      from unquote_ascii [OF True, of cs] obtain t where
        t: "appendString_loop (c # cs) = t @ appendString_loop cs"
           "\<And>q. unquote (t @ q) = pre [c] (unquote q)" by blast
      have "ValidString cs" using True "1.prems" Cons ValidString_ascii by blast
      with "1.IH" Cons have "unquote (appendString_loop cs @ CHR 0x22 # r) = Some (cs, r)"
        by simp
      then show ?thesis by (simp only: Cons t append_assoc) (simp add: pre_def)
    next
      case False
      from unquote_multi [OF False] "1.prems" Cons obtain t w where
        t: "appendString_loop (c # cs) = t @ appendString_loop (drop w cs)"
           "\<And>q. unquote (t @ q) = pre (c # take w cs) (unquote q)"
           "ValidString (drop w cs)" by blast
      with "1.IH" Cons
      have "unquote (appendString_loop (drop w cs) @ CHR 0x22 # r) = Some (drop w cs, r)"
        by simp
      then show ?thesis by (simp only: Cons t append_assoc) (simp add: pre_def)
    qed
  qed
qed

lemma appendString_inject:
  assumes "ValidString s" and "ValidString s'"
    and "appendString s @ r = appendString s' @ r'"
  shows "s = s' \<and> r = r'"
proof -
  from assms(3) have "appendString_loop s @ CHR 0x22 # r = appendString_loop s' @ CHR 0x22 # r'"
    by (simp add: appendString_def)
  then have "unquote (appendString_loop s @ CHR 0x22 # r)
             = unquote (appendString_loop s' @ CHR 0x22 # r')" by simp
  with assms(1,2) show ?thesis by (simp add: unquote_appendString_loop)
qed

section \<open>Documents and their digests\<close>

text \<open>
  On documents the digest is injective, also when a delimiter follows it: the first
  character tells the kind of value, and each kind can be read back.
\<close>

lemma cls_digit: "is_digit c \<Longrightarrow> cls c = 2"
  by (auto simp: cls_def is_digit_def less_eq_char_def)

lemma digest_of_INumber: "isValidNumber n \<Longrightarrow> digest_of (INumber n) = n"
  using isValidNumber_chars [of n] by (simp add: Let_def)

lemma digest_hd: "plain v \<Longrightarrow> \<exists>c cs. digest_of v = c # cs \<and> cls c = tag v"
proof (cases v)
  case (INumber n)
  assume "plain v"
  with INumber have v: "isValidNumber n" by simp
  from isValidNumber_chars [OF v] obtain c cs where n: "n = c # cs" by (cases n) auto
  with isValidNumber_chars [OF v] have "c = CHR ''-'' \<or> is_digit c" by simp
  then have "cls c = 2" using cls_digit [of c] by (auto simp: cls_def)
  with INumber v n show ?thesis by (simp add: digest_of_INumber)
qed (auto simp: cls_def appendString_def is_digit_def less_eq_char_def)

lemma join_comma_Cons:
  "join_comma (p # ps) = p @ (if ps = [] then [] else CHR '','' # join_comma ps)"
  by (cases ps) simp_all

lemma join_inject:
  assumes elem: "\<And>x y r r'. x \<in> set xs \<Longrightarrow> ok y \<Longrightarrow> delim r \<Longrightarrow> delim r' \<Longrightarrow>
                  enc x @ r = enc y @ r' \<Longrightarrow> x = y \<and> r = r'"
    and hd: "\<And>x. ok x \<Longrightarrow> enc x \<noteq> [] \<and> hd (enc x) \<noteq> close"
    and close: "close = CHR '']'' \<or> close = CHR ''}''"
    and ok: "list_all ok xs" "list_all ok ys"
    and eq: "join_comma (map enc xs) @ close # r = join_comma (map enc ys) @ close # r'"
  shows "xs = ys \<and> r = r'"
  using elem ok eq
proof (induction xs arbitrary: ys)
  case Nil
  show ?case
  proof (cases ys)
    case Nil
    with Nil.prems show ?thesis by simp
  next
    case (Cons y ys')
    with Nil.prems hd [of y] show ?thesis
      by (cases "enc y") (auto simp: join_comma_Cons)
  qed
next
  case (Cons x xs)
  let ?R = "\<lambda>zs q. (if zs = [] then [] else CHR '','' # join_comma (map enc zs)) @ close # q"
  have dl: "delim (?R zs q)" for zs q using close by (auto simp: delim_def)
  show ?case
  proof (cases ys)
    case Nil
    with Cons.prems hd [of x] show ?thesis
      by (cases "enc x") (auto simp: join_comma_Cons)
  next
    case (Cons y ys')
    from Cons.prems(4) Cons have e: "enc x @ ?R xs r = enc y @ ?R ys' r'"
      by (simp add: join_comma_Cons)
    from Cons.prems(3) Cons have oky: "ok y" and okys: "list_all ok ys'" by simp_all
    from Cons.prems(1) [OF _ oky dl dl e] have xy: "x = y" and R: "?R xs r = ?R ys' r'"
      by simp_all
    from Cons.prems(2) have okxs: "list_all ok xs" by simp
    have "xs = ys' \<and> r = r'"
    proof (cases "xs = []")
      case True
      with R close show ?thesis by (cases "ys' = []") auto
    next
      case False
      with R close have ne: "ys' \<noteq> []" by (cases "ys' = []") auto
      with False R have j: "join_comma (map enc xs) @ close # r = join_comma (map enc ys') @ close # r'"
        by simp
      have elem': "x = y \<and> r = r'"
        if "x \<in> set xs" "ok y" "delim r" "delim r'" "enc x @ r = enc y @ r'" for x y r r'
        using Cons.prems(1) [of x y r r'] that by (meson list.set_intros(2))
      from Cons.IH [OF elem' okxs okys j] show ?thesis .
    qed
    with xy Cons show ?thesis by simp
  qed
qed

lemma digest_of_IMap_plain:
  assumes "plain (IMap m)"
  shows "digest_of (IMap m)
         = ''{'' @ join_comma (map (\<lambda>(k, v). appendString k @ '':'' @ digest_of v) m) @ ''}''"
proof -
  from assms have st: "sorted_wrt (<) (map fst m)" by simp
  then have srt: "sorted (map fst m)" and dist: "distinct (map fst m)"
    by (simp_all add: strict_sorted_iff)
  have s: "sort (map fst m) = map fst m" using srt by (rule sorted_sort_id)
  have "(case map_of (map (\<lambda>(k, v). (k, digest_of v)) m) k of Some s \<Rightarrow> s | None \<Rightarrow> ''null'')
        = digest_of v" if "(k, v) \<in> set m" for k v
    using that dist by (simp add: map_of_map_digest)
  then have "map (\<lambda>key. appendString key @ '':''
                @ (case map_of (map (\<lambda>(k, v). (k, digest_of v)) m) key of
                     Some s \<Rightarrow> s | None \<Rightarrow> ''null'')) (map fst m)
             = map (\<lambda>(k, v). appendString k @ '':'' @ digest_of v) m"
    by (auto simp: comp_def)
  then show ?thesis by (simp only: digest_of.simps Let_def s)
qed

lemma same_tag:
  assumes "plain v" and "plain w" and "digest_of v @ r = digest_of w @ r'"
  shows "tag v = tag w"
proof -
  from digest_hd [OF assms(1)] obtain c cs where v: "digest_of v = c # cs" "cls c = tag v" by blast
  from digest_hd [OF assms(2)] obtain d ds where w: "digest_of w = d # ds" "cls d = tag w" by blast
  from assms(3) v w show ?thesis by simp
qed

lemma delim_not_num: "delim r \<Longrightarrow> r = [] \<or> \<not> num_char (hd r)"
  by (auto simp: delim_def num_char_def is_digit_def less_eq_char_def)

lemma append_eq_takeWhile:
  assumes "\<forall>c\<in>set n. P c" and "\<forall>c\<in>set n'. P c"
    and "r = [] \<or> \<not> P (hd r)" and "r' = [] \<or> \<not> P (hd r')"
    and "n @ r = n' @ r'"
  shows "n = n' \<and> r = r'"
proof -
  have t: "takeWhile P (xs @ q) = xs" if "\<forall>c\<in>set xs. P c" "q = [] \<or> \<not> P (hd q)" for xs q
    using that by (cases q) (auto simp: takeWhile_append2)
  have "n = takeWhile P (n @ r)" using assms(1,3) by (simp only: t)
  also have "\<dots> = takeWhile P (n' @ r')" using assms(5) by simp
  also have "\<dots> = n'" using assms(2,4) by (simp only: t)
  finally have "n = n'" .
  with assms(5) show ?thesis by simp
qed

lemma hd_not_close:
  "plain x \<Longrightarrow> digest_of x \<noteq> [] \<and> hd (digest_of x) \<noteq> CHR '']''"
proof -
  assume "plain x"
  from digest_hd [OF this] obtain c cs where c: "digest_of x = c # cs" "cls c = tag x" by blast
  have "tag x \<noteq> 7" by (cases x) auto
  with c have "c \<noteq> CHR '']''" by (auto simp: cls_def is_digit_def less_eq_char_def)
  with c show ?thesis by simp
qed

lemma digest_inject:
  "plain v \<Longrightarrow> plain w \<Longrightarrow> delim r \<Longrightarrow> delim r' \<Longrightarrow>
   digest_of v @ r = digest_of w @ r' \<Longrightarrow> v = w \<and> r = r'"
proof (induction v arbitrary: w r r')
  case INil
  from same_tag [OF INil(1,2,5)] INil(5) show ?case by (cases w) auto
next
  case (IBool b)
  from same_tag [OF IBool(1,2,5)] IBool(5) show ?case by (cases w) (auto split: if_splits)
next
  case (INumber n)
  from same_tag [OF INumber(1,2,5)] obtain n' where w: "w = INumber n'" by (cases w) auto
  with INumber have v: "isValidNumber n" "isValidNumber n'" and e: "n @ r = n' @ r'"
    by (simp_all add: digest_of_INumber del: digest_of.simps)
  from append_eq_takeWhile [of n num_char n' r r'] isValidNumber_chars [OF v(1)]
    isValidNumber_chars [OF v(2)] delim_not_num [OF INumber(3)] delim_not_num [OF INumber(4)] e
  show ?case by (simp add: w)
next
  case (IString s)
  from same_tag [OF IString(1,2,5)] obtain s' where w: "w = IString s'" by (cases w) auto
  with IString appendString_inject [of s s' r r'] show ?case by simp
next
  case (ISlice xs)
  from same_tag [OF ISlice(2,3,6)] obtain ys where w: "w = ISlice ys" by (cases w) auto
  from ISlice(6) w have e: "join_comma (map digest_of xs) @ CHR '']'' # r
                            = join_comma (map digest_of ys) @ CHR '']'' # r'" by simp
  from ISlice(2) have px: "list_all plain xs" by simp
  from ISlice(3) w have py: "list_all plain ys" by simp
  have elem: "x = y \<and> q = q'"
    if "x \<in> set xs" "plain y" "delim q" "delim q'" "digest_of x @ q = digest_of y @ q'"
    for x y q q'
  proof -
    from that(1) px have "plain x" by (simp add: list_all_iff)
    from ISlice.IH [OF that(1) this that(2-5)] show ?thesis .
  qed
  have "xs = ys \<and> r = r'"
  proof (rule join_inject [where ok = plain and enc = digest_of and close = "CHR '']''"])
    show "x = y \<and> q = q'"
      if "x \<in> set xs" "plain y" "delim q" "delim q'" "digest_of x @ q = digest_of y @ q'"
      for x y q q' using that by (rule elem)
    show "digest_of x \<noteq> [] \<and> hd (digest_of x) \<noteq> CHR '']''" if "plain x" for x
      using that by (rule hd_not_close)
    show "CHR '']'' = CHR '']'' \<or> CHR '']'' = CHR ''}''" by simp
    show "list_all plain xs" by (rule px)
    show "list_all plain ys" by (rule py)
    show "join_comma (map digest_of xs) @ CHR '']'' # r
          = join_comma (map digest_of ys) @ CHR '']'' # r'" by (rule e)
  qed
  then show ?case unfolding w by blast
next
  case (IMap m)
  from same_tag [OF IMap(2,3,6)] obtain m' where w: "w = IMap m'" by (cases w) auto
  let ?enc = "\<lambda>(k, v). appendString k @ '':'' @ digest_of v"
  let ?ok = "\<lambda>(k, v). ValidString k \<and> plain v"
  from IMap(6) w IMap(2,3)
  have e: "join_comma (map ?enc m) @ CHR ''}'' # r = join_comma (map ?enc m') @ CHR ''}'' # r'"
    by (simp add: digest_of_IMap_plain del: digest_of.simps plain.simps)
  from IMap(2) have pm: "list_all ?ok m" by simp
  from IMap(3) w have pm': "list_all ?ok m'" by simp
  have elem: "x = y \<and> q = q'"
    if "x \<in> set m" "?ok y" "delim q" "delim q'" "?enc x @ q = ?enc y @ q'" for x y q q'
  proof -
    obtain k v where x: "x = (k, v)" by (cases x)
    obtain k' v' where y: "y = (k', v')" by (cases y)
    from that(1) pm x have okx: "ValidString k" "plain v" by (auto simp: list_all_iff)
    from that(2) y have oky: "ValidString k'" "plain v'" by simp_all
    from that(5) x y
    have "appendString k @ ('':'' @ digest_of v @ q) = appendString k' @ ('':'' @ digest_of v' @ q')"
      by simp
    from appendString_inject [OF okx(1) oky(1) this]
    have k: "k = k'" and d: "digest_of v @ q = digest_of v' @ q'" by simp_all
    from that(1) x have "(k, v) \<in> set m" by simp
    from IMap.IH [OF this _ okx(2) oky(2) that(3,4) d] have "v = v' \<and> q = q'" by simp
    with k x y show ?thesis by simp
  qed
  have hd: "?enc x \<noteq> [] \<and> hd (?enc x) \<noteq> CHR ''}''" if "?ok x" for x
    by (cases x) (simp add: appendString_def)
  have "m = m' \<and> r = r'"
  proof (rule join_inject [where ok = ?ok and enc = ?enc and close = "CHR ''}''"])
    show "x = y \<and> q = q'"
      if "x \<in> set m" "?ok y" "delim q" "delim q'" "?enc x @ q = ?enc y @ q'"
      for x y q q' using that by (rule elem)
    show "?enc x \<noteq> [] \<and> hd (?enc x) \<noteq> CHR ''}''" if "?ok x" for x
      using that by (rule hd)
    show "CHR ''}'' = CHR '']'' \<or> CHR ''}'' = CHR ''}''" by simp
    show "list_all ?ok m" by (rule pm)
    show "list_all ?ok m'" by (rule pm')
    show "join_comma (map ?enc m) @ CHR ''}'' # r = join_comma (map ?enc m') @ CHR ''}'' # r'"
      by (rule e)
  qed
  then show ?case unfolding w by blast
next
  case (INode p)
  then show ?case by simp
qed

section \<open>Order of keys and order of elements\<close>

lemma digest_of_IMap_same_pairs:
  assumes "distinct (map fst m1)" and "distinct (map fst m2)" and "set m1 = set m2"
  shows "digest_of (IMap m1) = digest_of (IMap m2)"
proof -
  from assms(3) have "set (map fst m1) = set (map fst m2)" by simp
  with assms(1,2) have "mset (map fst m1) = mset (map fst m2)"
    by (simp only: set_eq_iff_mset_eq_distinct)
  then have "mset (sort (map fst m2)) = mset (map fst m1)" by simp
  then have k: "sort (map fst m1) = sort (map fst m2)"
    by (rule properties_for_sort) simp
  from assms have "map_of m1 = map_of m2" by (simp only: map_of_inject_set)
  then have "map_of (map (\<lambda>(k, v). (k, digest_of v)) m1) key
             = map_of (map (\<lambda>(k, v). (k, digest_of v)) m2) key" for key
    by (simp add: map_of_map_digest)
  then have "map_of (map (\<lambda>(k, v). (k, digest_of v)) m1)
             = map_of (map (\<lambda>(k, v). (k, digest_of v)) m2)" by (rule ext)
  with k show ?thesis by (simp only: digest_of.simps Let_def)
qed

lemma digest_of_IMap_sorted:
  "digest_of (IMap m)
   = ''{'' @ join_comma (map (\<lambda>key. appendString key @ '':'' @ digest_of (the (map_of m key)))
                          (sort (map fst m))) @ ''}''"
proof -
  have "(case map_of (map (\<lambda>(k, v). (k, digest_of v)) m) key of Some s \<Rightarrow> s | None \<Rightarrow> ''null'')
        = digest_of (the (map_of m key))" if "key \<in> set (sort (map fst m))" for key
  proof -
    from that have "key \<in> fst ` set m" by simp
    then obtain v where "map_of m key = Some v"
      by (metis map_of_eq_None_iff not_Some_eq)
    then show ?thesis by (simp add: map_of_map_digest)
  qed
  then have "map (\<lambda>key. appendString key @ '':''
                @ (case map_of (map (\<lambda>(k, v). (k, digest_of v)) m) key of
                     Some s \<Rightarrow> s | None \<Rightarrow> ''null'')) (sort (map fst m))
             = map (\<lambda>key. appendString key @ '':'' @ digest_of (the (map_of m key)))
                 (sort (map fst m))"
    by (intro map_cong) simp_all
  then show ?thesis by (simp only: digest_of.simps Let_def)
qed

text \<open>
  The encoder and the digest agree on documents, so a node digests as the value it holds;
  a document has the digest of the value it stands for, and two documents have the same
  digest exactly when they stand for the same value.
\<close>

lemma map_fst_sort_key: "map fst (sort_key fst m) = sort (map fst m)"
proof -
  have "mset (map fst (sort_key fst m)) = mset (map fst m)" by simp
  moreover have "sorted (map fst (sort_key fst m))" by (rule sorted_sort_key)
  ultimately show ?thesis by (rule properties_for_sort [symmetric])
qed

lemma digest_of_IMap_cong:
  assumes "sort (map fst m1) = sort (map fst m2)"
    and "\<And>key. map_option digest_of (map_of m1 key) = map_option digest_of (map_of m2 key)"
  shows "digest_of (IMap m1) = digest_of (IMap m2)"
proof -
  from assms(2) have "map_of (map (\<lambda>(k, v). (k, digest_of v)) m1)
                      = map_of (map (\<lambda>(k, v). (k, digest_of v)) m2)"
    by (intro ext) (simp add: map_of_map_digest)
  with assms(1) show ?thesis by (simp only: digest_of.simps Let_def)
qed

lemma map_of_map_canon:
  "map_of (map (\<lambda>(k, v). (k, f v)) m) key = map_option f (map_of m key)"
  by (induction m) auto

lemma collect_Inr: "collect (map Inr xs) = Inr xs"
  by (induction xs) simp_all

lemma map_pairs_keys:
  assumes "distinct (map fst m)" and "set ms \<subseteq> set m"
  shows "map (\<lambda>key. g key (the (map_of m key))) (map fst ms) = map (\<lambda>(k, v). g k v) ms"
  using assms(2,1) by (induction ms) auto

lemma doc_marshal: "doc v \<Longrightarrow> json_Marshal v = Inr (digest_of v)"
proof (induction v)
  case (INumber n)
  then show ?case using isValidNumber_chars [of n] by (simp add: Let_def)
next
  case (ISlice a)
  then have "\<forall>x\<in>set a. json_Marshal x = Inr (digest_of x)" by (simp add: list_all_iff)
  then have "map json_Marshal a = map Inr (map digest_of a)" by simp
  then show ?case by (simp only: json_Marshal.simps collect_Inr sum.case digest_of.simps)
next
  case (IMap m)
  let ?g = "\<lambda>k s. appendString k @ '':'' @ s"
  from IMap.prems have dist: "distinct (map fst m)"
    and ok: "\<forall>(k, v)\<in>set m. doc v" by (auto simp: list_all_iff)
  have ih: "json_Marshal v = Inr (digest_of v)" if "(k, v) \<in> set m" for k v
    using IMap.IH [OF that] ok that by auto
  have "(case x of (k, v) \<Rightarrow> case json_Marshal v of Inl e \<Rightarrow> Inl e | Inr s \<Rightarrow> Inr (?g k s))
        = Inr (case x of (k, v) \<Rightarrow> ?g k (digest_of v))" if "x \<in> set (sort_key fst m)" for x
  proof -
    obtain k v where x: "x = (k, v)" by (cases x)
    with that have "(k, v) \<in> set m" by simp
    from ih [OF this] show ?thesis by (simp only: x prod.case sum.case)
  qed
  then have "map (\<lambda>(k, v). case json_Marshal v of Inl e \<Rightarrow> Inl e | Inr s \<Rightarrow> Inr (?g k s)) (sort_key fst m)
        = map Inr (map (\<lambda>(k, v). ?g k (digest_of v)) (sort_key fst m))"
    by (simp only: map_map o_def cong: map_cong)
  then have m: "json_Marshal (IMap m)
      = Inr (''{'' @ join_comma (map (\<lambda>(k, v). ?g k (digest_of v)) (sort_key fst m)) @ ''}'')"
    by (simp only: json_Marshal.simps collect_Inr sum.case)
  have "map (\<lambda>key. ?g key (digest_of (the (map_of m key)))) (map fst (sort_key fst m))
        = map (\<lambda>(k, v). ?g k (digest_of v)) (sort_key fst m)"
    by (rule map_pairs_keys [OF dist]) simp
  then have "digest_of (IMap m)
      = ''{'' @ join_comma (map (\<lambda>(k, v). ?g k (digest_of v)) (sort_key fst m)) @ ''}''"
    by (simp only: digest_of_IMap_sorted map_fst_sort_key)
  with m show ?case by (simp only:)
next
  case (INode p)
  then show ?case by (cases p) simp_all
qed simp_all

lemma canon_plain_digest: "doc v \<Longrightarrow> plain (canon v) \<and> digest_of (canon v) = digest_of v"
proof (induction v)
  case (ISlice a)
  then have "\<forall>x\<in>set a. plain (canon x) \<and> digest_of (canon x) = digest_of x"
    by (simp add: list_all_iff)
  then show ?case by (simp add: list_all_iff cong: map_cong)
next
  case (IMap m)
  let ?m' = "map (\<lambda>(k, v). (k, canon v)) m"
  let ?ms = "sort_key fst ?m'"
  from IMap.prems have dist: "distinct (map fst m)"
    and ok: "\<forall>(k, v)\<in>set m. ValidString k \<and> doc v" by (simp_all add: list_all_iff)
  have ih: "plain (canon v) \<and> digest_of (canon v) = digest_of v" if "(k, v) \<in> set m" for k v
    using IMap.IH [OF that] ok that by auto
  have k': "map fst ?m' = map fst m" by (induction m) auto
  have ks: "map fst ?ms = sort (map fst m)" by (simp only: map_fst_sort_key k')
  have "sorted (map fst ?ms)" and "distinct (map fst ?ms)" using dist by (simp_all only: ks sorted_sort distinct_sort)
  then have st: "sorted_wrt (<) (map fst ?ms)" by (simp only: strict_sorted_iff)
  have okm: "list_all (\<lambda>(k, v). ValidString k \<and> plain v) ?ms"
    using ok ih by (auto simp: list_all_iff)
  have p: "plain (canon (IMap m))" using st okm by simp
  have d': "distinct (map fst ?m')" using dist by (simp only: k')
  have ds: "distinct (map fst ?ms)" by fact
  have "set ?ms = set ?m'" by simp
  with ds d' have mo: "map_of ?ms = map_of ?m'" by (simp only: map_of_inject_set)
  have "map_option digest_of (map_of ?ms key) = map_option digest_of (map_of m key)" for key
  proof (cases "map_of m key")
    case None
    then show ?thesis by (simp add: mo map_of_map_canon)
  next
    case (Some v)
    then have "(key, v) \<in> set m" by (rule map_of_SomeD)
    from ih [OF this] Some show ?thesis by (simp add: mo map_of_map_canon)
  qed
  moreover have "sort (map fst ?ms) = sort (map fst m)" by (simp only: ks sort_key_id_if_sorted sorted_sort sorted_sort_id)
  ultimately have "digest_of (IMap ?ms) = digest_of (IMap m)" by (intro digest_of_IMap_cong)
  with p show ?case by simp
next
  case (INode p)
  show ?case
  proof (cases p)
    case None
    then show ?thesis by simp
  next
    case (Some v)
    with INode have "plain (canon v)" and "digest_of (canon v) = digest_of v" and "doc v" by simp_all
    moreover from doc_marshal [OF \<open>doc v\<close>] have "digest_of (INode (Some v)) = digest_of v" by simp
    ultimately show ?thesis using Some by simp
  qed
qed simp_all

lemma doc_digest_iff:
  assumes "doc v" and "doc w"
  shows "digest_of v = digest_of w \<longleftrightarrow> canon v = canon w"
proof
  assume "digest_of v = digest_of w"
  then have "digest_of (canon v) @ [] = digest_of (canon w) @ []"
    using canon_plain_digest [OF assms(1)] canon_plain_digest [OF assms(2)] by simp
  from digest_inject [OF _ _ _ _ this] canon_plain_digest [OF assms(1)] canon_plain_digest [OF assms(2)]
  show "canon v = canon w" by (simp add: delim_def)
next
  assume "canon v = canon w"
  then show "digest_of v = digest_of w"
    using canon_plain_digest [OF assms(1)] canon_plain_digest [OF assms(2)] by metis
qed

text \<open>
  Listing the objects of a value in another order changes neither its encoding nor its
  digest, and two lists of the same pairs under distinct keys have the same \<open>norm\<close>.
\<close>

lemma insort_key_map:
  assumes "\<And>x. f (h x) = g x"
  shows "insort_key f (h x) (map h ys) = map h (insort_key g x ys)"
  by (induction ys) (simp_all add: assms)

lemma sort_key_map:
  assumes "\<And>x. f (h x) = g x"
  shows "sort_key f (map h xs) = map h (sort_key g xs)"
  by (induction xs) (simp_all add: insort_key_map [where f = f and h = h and g = g, OF assms])

lemma map_of_insort_key: "map_of (insort_key fst (k, v) ys) = (map_of ys)(k \<mapsto> v)"
proof (induction ys)
  case (Cons y ys)
  obtain k' v' where y: "y = (k', v')" by (cases y)
  show ?case
  proof (cases "k \<le> k'")
    case True
    then show ?thesis by (simp add: y fun_eq_iff)
  next
    case False
    then have "k \<noteq> k'" by auto
    with False Cons show ?thesis by (auto simp: y fun_eq_iff)
  qed
qed simp

lemma map_of_sort_key: "map_of (sort_key fst m) = map_of m"
proof (induction m)
  case (Cons x m)
  obtain k v where x: "x = (k, v)" by (cases x)
  from Cons show ?case by (simp add: x map_of_insort_key)
qed simp

lemma norm_marshal_digest:
  "json_Marshal (norm v) = json_Marshal v \<and> digest_of (norm v) = digest_of v"
proof (induction v)
  case (ISlice a)
  then have "map json_Marshal (map norm a) = map json_Marshal a"
    and "map digest_of (map norm a) = map digest_of a" by simp_all
  then show ?case by (simp only: norm.simps json_Marshal.simps digest_of.simps)
next
  case (IMap m)
  let ?np = "\<lambda>(k, v). (k, norm v)"
  let ?g = "\<lambda>(k, v). case json_Marshal v of Inl e \<Rightarrow> Inl e | Inr s \<Rightarrow> Inr (appendString k @ '':'' @ s)"
  let ?dg = "\<lambda>(k, v). (k, digest_of v)"
  have ih: "json_Marshal (norm v) = json_Marshal v \<and> digest_of (norm v) = digest_of v"
    if "(k, v) \<in> set m" for k v
    using IMap.IH [OF that] by simp
  have fst_np: "\<And>x. fst (?np x) = fst x" by (simp add: case_prod_beta)
  have s1: "sort_key fst (map ?np m) = map ?np (sort_key fst m)"
    by (rule sort_key_map [where g = fst]) (rule fst_np)
  have s2: "sort_key fst (map ?np (sort_key fst m)) = map ?np (sort_key fst m)"
    by (simp only: s1 [symmetric]) (rule sort_key_id_if_sorted, rule sorted_sort_key)
  have g: "?g (?np x) = ?g x" if "x \<in> set (sort_key fst m)" for x
  proof -
    obtain k v where x: "x = (k, v)" by (cases x)
    with that have "(k, v) \<in> set m" by simp
    from ih [OF this] show ?thesis by (simp only: x prod.case)
  qed
  have "map ?g (map ?np (sort_key fst m)) = map ?g (sort_key fst m)"
    using g by (simp only: map_map o_def cong: map_cong)
  then have j: "json_Marshal (norm (IMap m)) = json_Marshal (IMap m)"
    by (simp only: norm.simps json_Marshal.simps s1 s2)
  have dg: "?dg (?np x) = ?dg x" if "x \<in> set (sort_key fst m)" for x
  proof -
    obtain k v where x: "x = (k, v)" by (cases x)
    with that have "(k, v) \<in> set m" by simp
    from ih [OF this] show ?thesis by (simp only: x prod.case)
  qed
  have "map ?dg (map ?np (sort_key fst m)) = map ?dg (sort_key fst m)"
    using dg by (simp only: map_map o_def cong: map_cong)
  also have "\<dots> = sort_key fst (map ?dg m)"
    by (rule sort_key_map [where f = fst and h = ?dg and g = fst, symmetric]) (simp add: case_prod_beta)
  finally have c: "map ?dg (map ?np (sort_key fst m)) = sort_key fst (map ?dg m)" .
  have mo: "map_of (map ?dg (sort_key fst (map ?np m))) = map_of (map ?dg m)"
    unfolding s1 c by (rule map_of_sort_key)
  have "map fst (map ?np m) = map fst m" by (induction m) auto
  then have "sort (map fst (sort_key fst (map ?np m))) = sort (map fst m)"
    by (simp only: map_fst_sort_key sorted_sort_id sorted_sort)
  with mo have "digest_of (norm (IMap m)) = digest_of (IMap m)"
    by (simp only: norm.simps digest_of.simps Let_def)
  with j show ?case by (simp only:)
next
  case (INode p)
  then show ?case by (cases p) simp_all
qed simp_all

lemma alist_by_keys:
  assumes "distinct (map fst X)"
  shows "map (\<lambda>key. (key, the (map_of X key))) (map fst X) = X"
proof -
  have "map (\<lambda>key. (key, the (map_of X key))) (map fst X) = map (\<lambda>(k, v). (k, v)) X"
    by (rule map_pairs_keys [OF assms]) simp
  then show ?thesis by simp
qed

lemma norm_same_pairs:
  assumes "distinct (map fst m1)" and "distinct (map fst m2)" and "set m1 = set m2"
  shows "norm (IMap m1) = norm (IMap m2)"
proof -
  let ?np = "\<lambda>(k, v). (k, norm v)"
  let ?X = "sort_key fst (map ?np m1)" and ?Y = "sort_key fst (map ?np m2)"
  have k1: "map fst (map ?np m1) = map fst m1" and k2: "map fst (map ?np m2) = map fst m2"
    by (simp_all add: case_prod_beta)
  from assms(3) have "set (map fst m1) = set (map fst m2)" by simp
  with assms(1,2) have "mset (map fst m1) = mset (map fst m2)"
    by (simp only: set_eq_iff_mset_eq_distinct)
  then have "mset (sort (map fst m2)) = mset (map fst m1)" by simp
  then have k: "sort (map fst m1) = sort (map fst m2)"
    by (rule properties_for_sort) simp
  have kx: "map fst ?X = map fst ?Y" by (simp only: map_fst_sort_key k1 k2 k)
  have dx: "distinct (map fst ?X)" and dy: "distinct (map fst ?Y)"
    using assms(1,2) by (simp_all only: map_fst_sort_key k1 k2 distinct_sort)
  from assms(3) have "set (map ?np m1) = set (map ?np m2)" by simp
  moreover have "distinct (map fst (map ?np m1))" "distinct (map fst (map ?np m2))"
    using assms(1,2) by (simp_all only: k1 k2)
  ultimately have "map_of (map ?np m1) = map_of (map ?np m2)" by (simp only: map_of_inject_set)
  then have mo: "map_of ?X = map_of ?Y" by (simp only: map_of_sort_key)
  have "?X = map (\<lambda>key. (key, the (map_of ?X key))) (map fst ?X)"
    by (rule alist_by_keys [OF dx, symmetric])
  also have "\<dots> = map (\<lambda>key. (key, the (map_of ?Y key))) (map fst ?Y)" by (simp only: mo kx)
  also have "\<dots> = ?Y" by (rule alist_by_keys [OF dy])
  finally show ?thesis by (simp only: norm.simps)
qed

text \<open>
  Claim C1, as the code has it. Two objects that hold the same key-value pairs have the
  same digest, in whatever order \<^verbatim>\<open>range\<close> visits their keys, and so have two values that
  differ only in the listing of the objects inside them. Two arrays of documents whose
  elements, taken as JSON values, differ at some position have different digests; two
  arrays that hold the same elements in different orders are such a pair. More generally
  two documents have the same digest exactly when they stand for the same JSON value. The
  digest of an object lists its keys in ascending order: each key as a JSON string, a
  colon, and the digest of its value.
\<close>

theorem Digest_objects_unordered_arrays_ordered:
  "(distinct (map fst m1) \<and> distinct (map fst m2) \<and> set m1 = set m2 \<longrightarrow>
      DigestJSONForEqual \<lparr>jvalue = Some (IMap m1)\<rparr> = DigestJSONForEqual \<lparr>jvalue = Some (IMap m2)\<rparr>)
   \<and> (norm v = norm w \<longrightarrow>
      DigestJSONForEqual \<lparr>jvalue = Some v\<rparr> = DigestJSONForEqual \<lparr>jvalue = Some w\<rparr>)
   \<and> (doc (ISlice xs) \<and> doc (ISlice ys) \<and> map canon xs \<noteq> map canon ys \<longrightarrow>
      DigestJSONForEqual \<lparr>jvalue = Some (ISlice xs)\<rparr> \<noteq> DigestJSONForEqual \<lparr>jvalue = Some (ISlice ys)\<rparr>)
   \<and> (doc v \<and> doc w \<longrightarrow>
      (DigestJSONForEqual \<lparr>jvalue = Some v\<rparr> = DigestJSONForEqual \<lparr>jvalue = Some w\<rparr>)
        = (canon v = canon w))
   \<and> DigestJSONForEqual \<lparr>jvalue = Some (IMap m)\<rparr>
       = Inr (''{'' @ join_comma (map (\<lambda>key. appendString key @ '':''
                                         @ digest_of (the (map_of m key)))
                                 (sort (map fst m))) @ ''}'')
   \<and> sorted (sort (map fst m)) \<and> mset (sort (map fst m)) = mset (map fst m)"
proof -
  have a: "distinct (map fst m1) \<and> distinct (map fst m2) \<and> set m1 = set m2 \<longrightarrow>
      digest_of (IMap m1) = digest_of (IMap m2)"
    using digest_of_IMap_same_pairs [of m1 m2] by blast
  have b: "norm v = norm w \<longrightarrow> digest_of v = digest_of w"
    using norm_marshal_digest [of v] norm_marshal_digest [of w] by metis
  have c: "doc (ISlice xs) \<and> doc (ISlice ys) \<and> map canon xs \<noteq> map canon ys \<longrightarrow>
      digest_of (ISlice xs) \<noteq> digest_of (ISlice ys)"
    using doc_digest_iff [of "ISlice xs" "ISlice ys"] by (simp only: canon.simps iface.inject) blast
  have d: "doc v \<and> doc w \<longrightarrow> (digest_of v = digest_of w) = (canon v = canon w)"
    using doc_digest_iff [of v w] by blast
  have e: "digest_of (IMap m)
       = ''{'' @ join_comma (map (\<lambda>key. appendString key @ '':''
                                         @ digest_of (the (map_of m key)))
                                 (sort (map fst m))) @ ''}''"
    by (rule digest_of_IMap_sorted)
  show ?thesis
    using a b c d e by (simp only: Digest_eq Json.simps option.case sum.inject sorted_sort mset_sort)
qed

theorem Digest_order_witness:
  "DigestJSONForEqual \<lparr>jvalue = Some (IMap [(''a'', INumber ''1''), (''b'', INumber ''2'')])\<rparr>
     = DigestJSONForEqual \<lparr>jvalue = Some (IMap [(''b'', INumber ''2''), (''a'', INumber ''1'')])\<rparr>
   \<and> DigestJSONForEqual \<lparr>jvalue = Some (IMap [(''o'', IMap [(''a'', INumber ''1''), (''b'', INumber ''2'')])])\<rparr>
     = DigestJSONForEqual \<lparr>jvalue = Some (IMap [(''o'', IMap [(''b'', INumber ''2''), (''a'', INumber ''1'')])])\<rparr>
   \<and> DigestJSONForEqual \<lparr>jvalue = Some (ISlice [IString ''a'', IString ''b''])\<rparr>
     \<noteq> DigestJSONForEqual \<lparr>jvalue = Some (ISlice [IString ''b'', IString ''a''])\<rparr>
   \<and> DigestJSONForEqual \<lparr>jvalue = Some (ISlice [INode (Some (INumber ''1'')), INil])\<rparr>
     \<noteq> DigestJSONForEqual \<lparr>jvalue = Some (ISlice [INil, INode (Some (INumber ''1''))])\<rparr>"
proof -
  let ?o1 = "IMap [(''o'', IMap [(''a'', INumber ''1''), (''b'', INumber ''2'')])]"
  let ?o2 = "IMap [(''o'', IMap [(''b'', INumber ''2''), (''a'', INumber ''1'')])]"
  have d: "distinct (map fst [(''a'', INumber ''1''), (''b'', INumber ''2'')])"
    "distinct (map fst [(''b'', INumber ''2''), (''a'', INumber ''1'')])" by simp_all
  have s: "set [(''a'', INumber ''1''), (''b'', INumber ''2'')]
           = set [(''b'', INumber ''2''), (''a'', INumber ''1'')]" by auto
  have n: "norm ?o1 = norm ?o2" by code_simp
  have p: "doc (ISlice [IString ''a'', IString ''b''])" "doc (ISlice [IString ''b'', IString ''a''])"
    by (simp_all add: RuneError_def)
  have c: "map canon [IString ''a'', IString ''b''] \<noteq> map canon [IString ''b'', IString ''a'']" by simp
  have p': "doc (ISlice [INode (Some (INumber ''1'')), INil])" "doc (ISlice [INil, INode (Some (INumber ''1''))])"
    by (simp_all add: isValidNumber_def is_digit_def)
  have c': "map canon [INode (Some (INumber ''1'')), INil] \<noteq> map canon [INil, INode (Some (INumber ''1''))]" by simp
  show ?thesis
    using d s n p c p' c'
      Digest_objects_unordered_arrays_ordered
        [of "[(''a'', INumber ''1''), (''b'', INumber ''2'')]"
            "[(''b'', INumber ''2''), (''a'', INumber ''1'')]"
            ?o1 ?o2 "[IString ''a'', IString ''b'']" "[IString ''b'', IString ''a'']" "[]"]
      Digest_objects_unordered_arrays_ordered
        [of "[]" "[]" INil INil "[INode (Some (INumber ''1'')), INil]" "[INil, INode (Some (INumber ''1''))]" "[]"]
    by blast
qed

text \<open>
  Claim C1 as stated, for every pair of arrays, fails on elements that the encoder does
  not tell apart. A number that is not a valid literal digests as \<^verbatim>\<open>error\<close>, whatever it
  is; a byte that is not valid UTF-8 is written \<^verbatim>\<open>\ufffd\<close>, whatever it is; a node digests
  as the value it holds. In each case the two arrays hold the same elements in different
  orders and have the same digest.
\<close>

theorem Digest_array_order_counterexample:
  "mset [INumber ''x'', INumber ''y''] = mset [INumber ''y'', INumber ''x'']
   \<and> [INumber ''x'', INumber ''y''] \<noteq> [INumber ''y'', INumber ''x'']
   \<and> DigestJSONForEqual \<lparr>jvalue = Some (ISlice [INumber ''x'', INumber ''y''])\<rparr>
       = DigestJSONForEqual \<lparr>jvalue = Some (ISlice [INumber ''y'', INumber ''x''])\<rparr>
   \<and> DigestJSONForEqual \<lparr>jvalue = Some (ISlice [INumber ''x'', INumber ''y''])\<rparr>
       = Inr ''[error,error]''
   \<and> mset [IString [CHR 0xFF], IString [CHR 0xFE]] = mset [IString [CHR 0xFE], IString [CHR 0xFF]]
   \<and> [IString [CHR 0xFF], IString [CHR 0xFE]] \<noteq> [IString [CHR 0xFE], IString [CHR 0xFF]]
   \<and> DigestJSONForEqual \<lparr>jvalue = Some (ISlice [IString [CHR 0xFF], IString [CHR 0xFE]])\<rparr>
       = DigestJSONForEqual \<lparr>jvalue = Some (ISlice [IString [CHR 0xFE], IString [CHR 0xFF]])\<rparr>
   \<and> mset [INode (Some INil), INil] = mset [INil, INode (Some INil)]
   \<and> [INode (Some INil), INil] \<noteq> [INil, INode (Some INil)]
   \<and> DigestJSONForEqual \<lparr>jvalue = Some (ISlice [INode (Some INil), INil])\<rparr>
       = DigestJSONForEqual \<lparr>jvalue = Some (ISlice [INil, INode (Some INil)])\<rparr>"
  by (simp add: Digest_eq isValidNumber_def is_digit_def appendString_def)

end
